theory Spec2Isabelle
  imports Complex_Main
begin

section \<open>Values, strings and JSON text\<close>

text \<open>
  The client-side resilience layer of the knowledge-management UI: the response cache
  (\<open>ApiCache\<close>), the retry policy (\<open>withRetry\<close>), the caching client (\<open>CachedApiClient\<close>),
  the optimistic-update hook and the file-upload hook. Each source function is embedded as
  a HOL function of the same name; the JavaScript runtime pieces they call (\<open>Map\<close>,
  \<open>JSON.stringify\<close>, number-to-string conversion) are embedded next to them.

  JavaScript values that reach the cache and the params object: primitives, arrays and
  objects. An object is the list of its own enumerable entries in the order the engine
  enumerates them, which for string keys that are not array indices is insertion order.
  Numbers are modelled as integers.
\<close>

datatype json =
    JNull
  | JBool bool
  | JNum int
  | JString string
  | JArray "json list"
  | JObject "(string \<times> json) list"

text \<open>The character of a digit below ten, and of a hexadecimal digit below sixteen.\<close>

definition digit_char :: "nat \<Rightarrow> char" where
  "digit_char n = ''0123456789'' ! n"

text \<open>Decimal rendering of a non-negative integer, as template literals and \<open>String(n)\<close> do.\<close>

fun string_of_nat :: "nat \<Rightarrow> string" where
  "string_of_nat n =
     (if n < 10 then [digit_char n] else string_of_nat (n div 10) @ [digit_char (n mod 10)])"

definition string_of_int :: "int \<Rightarrow> string" where
  "string_of_int i = (if i < 0 then CHR ''-'' # string_of_nat (nat (- i)) else string_of_nat (nat i))"

definition hex_char :: "nat \<Rightarrow> char" where
  "hex_char n = ''0123456789abcdef'' ! n"

text \<open>The escape \<open>JSON.stringify\<close> applies to one character of a string.\<close>

definition json_escape :: "char \<Rightarrow> string" where
  "json_escape c =
     (if c = CHR 0x22 then [CHR 0x5C, CHR 0x22]
      else if c = CHR 0x5C then [CHR 0x5C, CHR 0x5C]
      else if c = CHR 0x08 then [CHR 0x5C, CHR ''b'']
      else if c = CHR 0x0C then [CHR 0x5C, CHR ''f'']
      else if c = CHR 0x0A then [CHR 0x5C, CHR ''n'']
      else if c = CHR 0x0D then [CHR 0x5C, CHR ''r'']
      else if c = CHR 0x09 then [CHR 0x5C, CHR ''t'']
      else if of_char c < (32::nat)
        then [CHR 0x5C, CHR ''u'', CHR ''0'', CHR ''0'',
              hex_char (of_char c div 16), hex_char (of_char c mod 16)]
      else [c])"

definition json_quote :: "string \<Rightarrow> string" where
  "json_quote s = [CHR 0x22] @ concat (map json_escape s) @ [CHR 0x22]"

fun join :: "string \<Rightarrow> string list \<Rightarrow> string" where
  "join sep [] = []"
| "join sep [x] = x"
| "join sep (x # y # ys) = x @ sep @ join sep (y # ys)"

fun stringify :: "json \<Rightarrow> string" where
  "stringify JNull = ''null''"
| "stringify (JBool b) = (if b then ''true'' else ''false'')"
| "stringify (JNum n) = string_of_int n"
| "stringify (JString s) = json_quote s"
| "stringify (JArray xs) = ''['' @ join '','' (map stringify xs) @ '']''"
| "stringify (JObject kvs) =
     ''{'' @ join '','' (map (\<lambda>kv. json_quote (fst kv) @ '':'' @ stringify (snd kv)) kvs) @ ''}''"

section \<open>ApiCache\<close>

record 'a CacheItem =
  data :: 'a
  timestamp :: int
  ttl :: int

record CacheConfig =
  defaultTTL :: int
  maxSize :: nat

text \<open>
  The store is a JavaScript \<open>Map\<close>: keys are unique and iteration follows insertion
  order, so it is an association list. Setting a key that is present replaces its value
  and keeps its position; a new key goes to the end.
\<close>

type_synonym 'v jsmap = "(string \<times> 'v) list"

definition map_has :: "string \<Rightarrow> 'v jsmap \<Rightarrow> bool" where
  "map_has k m \<longleftrightarrow> k \<in> set (map fst m)"

definition map_get :: "string \<Rightarrow> 'v jsmap \<Rightarrow> 'v option" where
  "map_get k m = map_of m k"

definition map_set :: "string \<Rightarrow> 'v \<Rightarrow> 'v jsmap \<Rightarrow> 'v jsmap" where
  "map_set k v m =
     (if map_has k m then map (\<lambda>e. if fst e = k then (k, v) else e) m else m @ [(k, v)])"

definition map_delete :: "string \<Rightarrow> 'v jsmap \<Rightarrow> 'v jsmap" where
  "map_delete k m = filter (\<lambda>e. fst e \<noteq> k) m"

type_synonym 'a cache = "'a CacheItem jsmap"

type_synonym params = "(string \<times> json) list option"

definition generateKey :: "string \<Rightarrow> params \<Rightarrow> string" where
  "generateKey url ps =
     (let paramString = (case ps of None \<Rightarrow> [] | Some kvs \<Rightarrow> stringify (JObject kvs))
      in url @ '':'' @ paramString)"

definition isExpired :: "int \<Rightarrow> 'a CacheItem \<Rightarrow> bool" where
  "isExpired now item \<longleftrightarrow> now - timestamp item > ttl item"

text \<open>
  \<open>cleanup\<close>: the first loop walks the entries and deletes the expired ones; then, when the
  store is over its bound, the first \<open>size - maxSize\<close> keys of the key list are deleted.
\<close>

definition remove_expired :: "int \<Rightarrow> 'a cache \<Rightarrow> 'a cache" where
  "remove_expired now c =
     fold (\<lambda>e m. if isExpired now (snd e) then map_delete (fst e) m else m) c c"

definition enforce_size :: "CacheConfig \<Rightarrow> 'a cache \<Rightarrow> 'a cache" where
  "enforce_size cfg c =
     (if length c > maxSize cfg
      then (let keysToDelete = take (length c - maxSize cfg) (map fst c)
            in fold map_delete keysToDelete c)
      else c)"

definition cleanup :: "CacheConfig \<Rightarrow> int \<Rightarrow> 'a cache \<Rightarrow> 'a cache" where
  "cleanup cfg now c = enforce_size cfg (remove_expired now c)"

text \<open>\<open>get\<close> returns the value (or \<open>None\<close> for JavaScript's \<open>null\<close>) and the store it leaves.\<close>

definition cache_get :: "CacheConfig \<Rightarrow> int \<Rightarrow> string \<Rightarrow> params \<Rightarrow> 'a cache \<Rightarrow> 'a option \<times> 'a cache" where
  "cache_get cfg now url ps c =
     (let c' = cleanup cfg now c;
          key = generateKey url ps
      in (case map_get key c' of
            Some item \<Rightarrow> (if \<not> isExpired now item then (Some (data item), c') else (None, c'))
          | None \<Rightarrow> (None, c')))"

text \<open>\<open>ttl || this.config.defaultTTL\<close>: an omitted or zero \<open>ttl\<close> takes the default.\<close>

definition effective_ttl :: "CacheConfig \<Rightarrow> int option \<Rightarrow> int" where
  "effective_ttl cfg t = (case t of None \<Rightarrow> defaultTTL cfg | Some x \<Rightarrow> if x = 0 then defaultTTL cfg else x)"

definition cache_set :: "CacheConfig \<Rightarrow> int \<Rightarrow> string \<Rightarrow> 'a \<Rightarrow> params \<Rightarrow> int option \<Rightarrow> 'a cache \<Rightarrow> 'a cache" where
  "cache_set cfg now url d ps t c =
     (let key = generateKey url ps;
          item = \<lparr>data = d, timestamp = now, ttl = effective_ttl cfg t\<rparr>
      in cleanup cfg now (map_set key item c))"

definition invalidate :: "string \<Rightarrow> params \<Rightarrow> 'a cache \<Rightarrow> 'a cache" where
  "invalidate url ps c = map_delete (generateKey url ps) c"

text \<open>\<open>String.prototype.includes\<close>: the pattern occurs as a contiguous substring.\<close>

fun str_includes :: "string \<Rightarrow> string \<Rightarrow> bool" where
  "str_includes [] pat = (pat = [])"
| "str_includes (c # cs) pat = (take (length pat) (c # cs) = pat \<or> str_includes cs pat)"

definition invalidatePattern :: "string \<Rightarrow> 'a cache \<Rightarrow> 'a cache" where
  "invalidatePattern pat c =
     (let keysToDelete = filter (\<lambda>key. str_includes key pat) (map fst c)
      in fold map_delete keysToDelete c)"

definition clear :: "'a cache \<Rightarrow> 'a cache" where
  "clear c = []"

text \<open>The public operations of the cache, and a run of them from the empty store.\<close>

datatype 'a cache_op =
    Get int string params
  | Set int string 'a params "int option"
  | Invalidate string params
  | InvalidatePattern string
  | Clear

fun apply_cache_op :: "CacheConfig \<Rightarrow> 'a cache_op \<Rightarrow> 'a cache \<Rightarrow> 'a cache" where
  "apply_cache_op cfg (Get now url ps) c = snd (cache_get cfg now url ps c)"
| "apply_cache_op cfg (Set now url d ps t) c = cache_set cfg now url d ps t c"
| "apply_cache_op cfg (Invalidate url ps) c = invalidate url ps c"
| "apply_cache_op cfg (InvalidatePattern pat) c = invalidatePattern pat c"
| "apply_cache_op cfg Clear c = clear c"

definition run_cache :: "CacheConfig \<Rightarrow> 'a cache_op list \<Rightarrow> 'a cache" where
  "run_cache cfg ops = fold (apply_cache_op cfg) ops []"

text \<open>
  A batch of \<open>set\<close> calls, each given as (time of the call, url, value, params, ttl):
  the operation it stands for and the entry it stores. \<open>stays_live\<close> says that no entry
  of the batch has expired by the time of any call of the batch.
\<close>

type_synonym 'a set_request = "int \<times> string \<times> 'a \<times> params \<times> int option"

definition set_op :: "'a set_request \<Rightarrow> 'a cache_op" where
  "set_op r = (case r of (now, url, d, ps, t) \<Rightarrow> Set now url d ps t)"

definition entry_of :: "CacheConfig \<Rightarrow> 'a set_request \<Rightarrow> string \<times> 'a CacheItem" where
  "entry_of cfg r =
     (case r of (now, url, d, ps, t) \<Rightarrow>
        (generateKey url ps, \<lparr>data = d, timestamp = now, ttl = effective_ttl cfg t\<rparr>))"

definition stays_live :: "CacheConfig \<Rightarrow> 'a set_request list \<Rightarrow> bool" where
  "stays_live cfg rs \<longleftrightarrow>
     (\<forall>r \<in> set rs. \<forall>r' \<in> set rs. \<not> isExpired (fst r') (snd (entry_of cfg r)))"

section \<open>Errors and the retry policy\<close>

text \<open>
  Error messages. The fixed user-facing texts of the source are written in Russian; each
  is represented by a constructor named after its meaning, and any other text by \<open>Text\<close>.
  \<open>ServerErrorStatus s\<close> is the template that ends in the status code.
\<close>

datatype localized_text =
    ConnectionProblem
  | BadRequest
  | Unauthorized
  | Forbidden
  | NotFound
  | Conflict
  | TooManyRequests
  | InternalServerError
  | BadGateway
  | ServiceUnavailable
  | GatewayTimeout
  | ServerErrorStatus int
  | UploadCancelled
  | UploadFailed
  | UpdateFailed

datatype message = Text string | Localized localized_text

text \<open>\<open>a || b\<close> on messages: the empty (or missing) text is falsy.\<close>

definition msg_or :: "message \<Rightarrow> message \<Rightarrow> message" where
  "msg_or a b = (if a = Text [] then b else a)"

record RetryConfig =
  maxAttempts :: int
  baseDelay :: real
  maxDelay :: real
  exponentialBase :: real
  jitter :: bool

record ErrorContext =
  ctx_url :: "string option"
  ctx_method :: "string option"
  ctx_status :: "int option"
  ctx_attempt :: "int option"
  ctx_maxAttempts :: "int option"

definition empty_context :: ErrorContext where
  "empty_context = \<lparr>ctx_url = None, ctx_method = None, ctx_status = None,
                      ctx_attempt = None, ctx_maxAttempts = None\<rparr>"

text \<open>
  The response part of a transport error: its status and \<open>data?.message\<close>. A thrown
  value has the fields the code reads: \<open>message\<close>, \<open>response\<close> (set by the HTTP client
  when the server answered), and the fields of \<open>NetworkError\<close>, which has no \<open>response\<close>.
\<close>

record response =
  resp_status :: int
  resp_message :: "message option"

datatype error_name = Error | AbortError | NetworkErrorName | RetryableErrorName

record js_error =
  name :: error_name
  message :: message
  response :: "response option"
  status :: "int option"
  isRetryable :: bool
  err_context :: ErrorContext

definition NetworkError :: "message \<Rightarrow> int option \<Rightarrow> ErrorContext \<Rightarrow> bool \<Rightarrow> js_error" where
  "NetworkError msg st ctx retryable =
     \<lparr>name = NetworkErrorName, message = msg, response = None, status = st,
      isRetryable = retryable, err_context = ctx\<rparr>"

definition RetryableError :: "message \<Rightarrow> int option \<Rightarrow> ErrorContext \<Rightarrow> js_error" where
  "RetryableError msg st ctx = (NetworkError msg st ctx True)\<lparr>name := RetryableErrorName\<rparr>"

definition instanceof_NetworkError :: "js_error \<Rightarrow> bool" where
  "instanceof_NetworkError e \<longleftrightarrow> name e = NetworkErrorName \<or> name e = RetryableErrorName"

definition retryableStatuses :: "int list" where
  "retryableStatuses = [408, 409, 429, 500, 502, 503, 504]"

definition isRetryableError :: "js_error \<Rightarrow> bool" where
  "isRetryableError error =
     (case response error of
        None \<Rightarrow> True
      | Some r \<Rightarrow> resp_status r \<in> set retryableStatuses)"

text \<open>
  \<open>calculateDelay\<close>; \<open>rnd\<close> is the value \<open>Math.random()\<close> returns. Delays are real
  numbers; \<open>Math.pow\<close> with an integer exponent is \<open>powi\<close>.
\<close>

definition calculateDelay :: "int \<Rightarrow> RetryConfig \<Rightarrow> real \<Rightarrow> real" where
  "calculateDelay attempt config rnd =
     (let exponentialDelay = baseDelay config * (exponentialBase config powi (attempt - 1));
          delay = min exponentialDelay (maxDelay config)
      in if jitter config
         then (let jit = delay * 0.25 * (rnd * 2 - 1) in max 0 (delay + jit))
         else delay)"

text \<open>The config argument of \<open>withRetry\<close> is partial; missing fields take the defaults.\<close>

record PartialRetryConfig =
  opt_maxAttempts :: "int option"
  opt_baseDelay :: "real option"
  opt_maxDelay :: "real option"
  opt_exponentialBase :: "real option"
  opt_jitter :: "bool option"

definition retryConfig_of :: "PartialRetryConfig \<Rightarrow> RetryConfig" where
  "retryConfig_of config =
     \<lparr>maxAttempts = (case opt_maxAttempts config of None \<Rightarrow> 3 | Some x \<Rightarrow> x),
      baseDelay = (case opt_baseDelay config of None \<Rightarrow> 1000 | Some x \<Rightarrow> x),
      maxDelay = (case opt_maxDelay config of None \<Rightarrow> 10000 | Some x \<Rightarrow> x),
      exponentialBase = (case opt_exponentialBase config of None \<Rightarrow> 2 | Some x \<Rightarrow> x),
      jitter = (case opt_jitter config of None \<Rightarrow> True | Some x \<Rightarrow> x)\<rparr>"

definition all_fields :: "RetryConfig \<Rightarrow> PartialRetryConfig" where
  "all_fields c =
     \<lparr>opt_maxAttempts = Some (maxAttempts c), opt_baseDelay = Some (baseDelay c),
      opt_maxDelay = Some (maxDelay c), opt_exponentialBase = Some (exponentialBase c),
      opt_jitter = Some (jitter c)\<rparr>"

text \<open>
  What \<open>withRetry\<close> leaves behind: the value returned or thrown, how many times the
  operation was called, and the delays slept between the calls. The loop can only throw
  \<open>undefined\<close> when it never ran.
\<close>

datatype thrown = Undefined | Err js_error

record 'a retry_result =
  outcome :: "thrown + 'a"
  calls :: nat
  sleeps :: "real list"

definition terminal_error :: "js_error \<Rightarrow> ErrorContext \<Rightarrow> int \<Rightarrow> RetryConfig \<Rightarrow> js_error" where
  "terminal_error error ctx attempt retryConfig =
     (let errorContext = ctx\<lparr>ctx_attempt := Some attempt, ctx_maxAttempts := Some (maxAttempts retryConfig)\<rparr>
      in NetworkError (msg_or (message error) (Text ''Request failed''))
           (case response error of None \<Rightarrow> None | Some r \<Rightarrow> Some (resp_status r))
           errorContext False)"

text \<open>
  The \<open>for\<close> loop of \<open>withRetry\<close> from a given attempt on. \<open>operation a\<close> is what the
  call of the operation made in attempt \<open>a\<close> does: return a value or throw.
\<close>

function retry_loop ::
  "(int \<Rightarrow> js_error + 'a) \<Rightarrow> RetryConfig \<Rightarrow> ErrorContext \<Rightarrow> (int \<Rightarrow> real) \<Rightarrow>
   int \<Rightarrow> nat \<Rightarrow> real list \<Rightarrow> js_error option \<Rightarrow> 'a retry_result" where
  "retry_loop operation retryConfig ctx rnd attempt n slept lastError =
     (if attempt \<le> maxAttempts retryConfig then
        (case operation attempt of
           Inr result \<Rightarrow> \<lparr>outcome = Inr result, calls = Suc n, sleeps = slept\<rparr>
         | Inl error \<Rightarrow>
             if attempt = maxAttempts retryConfig \<or> \<not> isRetryableError error
             then \<lparr>outcome = Inl (Err (terminal_error error ctx attempt retryConfig)),
                   calls = Suc n, sleeps = slept\<rparr>
             else retry_loop operation retryConfig ctx rnd (attempt + 1) (Suc n)
                    (slept @ [calculateDelay attempt retryConfig (rnd attempt)]) (Some error))
      else \<lparr>outcome = Inl (case lastError of None \<Rightarrow> Undefined | Some e \<Rightarrow> Err e),
             calls = n, sleeps = slept\<rparr>)"
  by pat_completeness auto
termination
  by (relation "measure (\<lambda>(operation, retryConfig, ctx, rnd, attempt, n, slept, lastError).
        nat (maxAttempts retryConfig + 1 - attempt))") auto

definition withRetry ::
  "(int \<Rightarrow> js_error + 'a) \<Rightarrow> PartialRetryConfig \<Rightarrow> ErrorContext \<Rightarrow> (int \<Rightarrow> real) \<Rightarrow> 'a retry_result" where
  "withRetry operation config ctx rnd =
     retry_loop operation (retryConfig_of config) ctx rnd 1 0 [] None"

definition getUserFriendlyErrorMessage :: "js_error \<Rightarrow> message" where
  "getUserFriendlyErrorMessage error =
     (case response error of
        None \<Rightarrow> Localized ConnectionProblem
      | Some r \<Rightarrow>
          (let st = resp_status r;
               msg = (case resp_message r of
                        None \<Rightarrow> message error
                      | Some m \<Rightarrow> msg_or m (message error))
           in if st = 400 then Localized BadRequest
              else if st = 401 then Localized Unauthorized
              else if st = 403 then Localized Forbidden
              else if st = 404 then Localized NotFound
              else if st = 409 then Localized Conflict
              else if st = 429 then Localized TooManyRequests
              else if st = 500 then Localized InternalServerError
              else if st = 502 then Localized BadGateway
              else if st = 503 then Localized ServiceUnavailable
              else if st = 504 then Localized GatewayTimeout
              else msg_or msg (Localized (ServerErrorStatus st))))"

definition handleApiError :: "js_error \<Rightarrow> ErrorContext \<Rightarrow> js_error" where
  "handleApiError error ctx =
     (let errorMessage = getUserFriendlyErrorMessage error;
          st = (case response error of None \<Rightarrow> None | Some r \<Rightarrow> Some (resp_status r))
      in if isRetryableError error
         then RetryableError errorMessage st ctx
         else NetworkError errorMessage st ctx False)"

definition RETRY_quick :: RetryConfig where
  "RETRY_quick = \<lparr>maxAttempts = 2, baseDelay = 500, maxDelay = 2000, exponentialBase = 2, jitter = True\<rparr>"

definition RETRY_standard :: RetryConfig where
  "RETRY_standard = \<lparr>maxAttempts = 3, baseDelay = 1000, maxDelay = 5000, exponentialBase = 2, jitter = True\<rparr>"

definition RETRY_heavy :: RetryConfig where
  "RETRY_heavy = \<lparr>maxAttempts = 5, baseDelay = 2000, maxDelay = 30000, exponentialBase = 3 / 2, jitter = True\<rparr>"

text \<open>An error thrown by the HTTP client: a message and, when the server answered, the response.\<close>

definition transport_error :: "message \<Rightarrow> response option \<Rightarrow> js_error" where
  "transport_error msg resp =
     \<lparr>name = Error, message = msg, response = resp, status = None,
      isRetryable = False, err_context = empty_context\<rparr>"

section \<open>CachedApiClient\<close>

datatype retry_profile = quick | standard | heavy

datatype retry_option = NoRetry | Profile retry_profile

fun RETRY_CONFIGS :: "retry_profile \<Rightarrow> RetryConfig" where
  "RETRY_CONFIGS quick = RETRY_quick"
| "RETRY_CONFIGS standard = RETRY_standard"
| "RETRY_CONFIGS heavy = RETRY_heavy"

text \<open>The request config; a field that is \<open>None\<close> was not given and takes its default.\<close>

record CachedRequestConfig =
  useCache :: "bool option"
  cacheTTL :: "int option"
  cacheKey :: "string option"
  staleWhileRevalidate :: "bool option"
  retryConfig :: "retry_option option"
  params :: params

definition default_request_config :: CachedRequestConfig where
  "default_request_config =
     \<lparr>useCache = None, cacheTTL = None, cacheKey = None, staleWhileRevalidate = None,
      retryConfig = None, params = None\<rparr>"

text \<open>\<open>cacheKey || url\<close>: a missing or empty cache key falls back to the url.\<close>

definition key_or_url :: "string option \<Rightarrow> string \<Rightarrow> string" where
  "key_or_url ck url = (case ck of None \<Rightarrow> url | Some k \<Rightarrow> if k = [] then url else k)"

text \<open>JavaScript truthiness of a value, as tested by \<open>if (cached)\<close>.\<close>

fun truthy :: "json \<Rightarrow> bool" where
  "truthy JNull = False"
| "truthy (JBool b) = b"
| "truthy (JNum n) = (n \<noteq> 0)"
| "truthy (JString s) = (s \<noteq> [])"
| "truthy (JArray xs) = True"
| "truthy (JObject kvs) = True"

definition apiCache_config :: CacheConfig where
  "apiCache_config = \<lparr>defaultTTL = 5 * 60 * 1000, maxSize = 100\<rparr>"

text \<open>
  The state of the client: the shared cache, the map \<open>backgroundRefreshPromises\<close> from
  key to promise, and the background requests that were sent and have not settled yet,
  each with the promise it belongs to and the arguments its callbacks closed over.
\<close>

record refresh =
  rf_key :: string
  rf_url :: string
  rf_params :: params
  rf_cacheTTL :: "int option"

record client_state =
  apiCache :: "json cache"
  backgroundRefreshPromises :: "nat jsmap"
  in_flight :: "(nat \<times> refresh) list"
  next_promise :: nat

definition initial_client :: client_state where
  "initial_client = \<lparr>apiCache = [], backgroundRefreshPromises = [], in_flight = [], next_promise = 0\<rparr>"

definition refreshInBackground ::
  "string \<Rightarrow> params \<Rightarrow> int option \<Rightarrow> string option \<Rightarrow> client_state \<Rightarrow> client_state" where
  "refreshInBackground url ps ttl_opt ck st =
     (let key = key_or_url ck url
      in if map_has key (backgroundRefreshPromises st) then st
         else (let promise = next_promise st
               in st\<lparr>in_flight := in_flight st @
                        [(promise, \<lparr>rf_key = key, rf_url = url, rf_params = ps, rf_cacheTTL = ttl_opt\<rparr>)],
                      backgroundRefreshPromises := map_set key promise (backgroundRefreshPromises st),
                      next_promise := Suc promise\<rparr>))"

text \<open>
  The background request of a promise settles at time \<open>now\<close>: \<open>then\<close> stores the data on
  success, \<open>catch\<close> swallows a failure, \<open>finally\<close> deletes the key from the map.
\<close>

definition settle_refresh :: "int \<Rightarrow> nat \<Rightarrow> js_error + json \<Rightarrow> client_state \<Rightarrow> client_state" where
  "settle_refresh now promise result st =
     (case map_of (in_flight st) promise of
        None \<Rightarrow> st
      | Some rf \<Rightarrow>
          (let st1 = (case result of
                        Inr d \<Rightarrow> st\<lparr>apiCache := cache_set apiCache_config now (rf_key rf) d
                                                  (rf_params rf) (rf_cacheTTL rf) (apiCache st)\<rparr>
                      | Inl error \<Rightarrow> st)
           in st1\<lparr>in_flight := filter (\<lambda>r. fst r \<noteq> promise) (in_flight st1),
                   backgroundRefreshPromises := map_delete (rf_key rf) (backgroundRefreshPromises st1)\<rparr>))"

definition get_context :: "string \<Rightarrow> ErrorContext" where
  "get_context url = empty_context\<lparr>ctx_url := Some url, ctx_method := Some ''GET''\<rparr>"

text \<open>
  The request of \<open>get\<close> with its retry logic; \<open>transport a\<close> is what the \<open>a\<close>-th call of
  the HTTP client's \<open>get\<close> does.
\<close>

definition requestOperation :: "string \<Rightarrow> (int \<Rightarrow> js_error + json) \<Rightarrow> int \<Rightarrow> js_error + json" where
  "requestOperation url transport attempt =
     (case transport attempt of
        Inr d \<Rightarrow> Inr d
      | Inl error \<Rightarrow> Inl (handleApiError error (get_context url)))"

definition fresh_request ::
  "string \<Rightarrow> retry_option \<Rightarrow> (int \<Rightarrow> js_error + json) \<Rightarrow> (int \<Rightarrow> real) \<Rightarrow> json retry_result" where
  "fresh_request url retry transport rnd =
     (case retry of
        NoRetry \<Rightarrow>
          (case requestOperation url transport 1 of
             Inr d \<Rightarrow> \<lparr>outcome = Inr d, calls = 1, sleeps = []\<rparr>
           | Inl e \<Rightarrow> \<lparr>outcome = Inl (Err e), calls = 1, sleeps = []\<rparr>)
      | Profile p \<Rightarrow>
          withRetry (requestOperation url transport) (all_fields (RETRY_CONFIGS p)) (get_context url) rnd)"

text \<open>
  \<open>get\<close>, called at time \<open>now\<close>; a fresh response is stored at time \<open>done\<close>. The result
  counts the transport calls made for the caller.
\<close>

definition client_get ::
  "int \<Rightarrow> int \<Rightarrow> string \<Rightarrow> CachedRequestConfig \<Rightarrow> (int \<Rightarrow> js_error + json) \<Rightarrow> (int \<Rightarrow> real) \<Rightarrow>
   client_state \<Rightarrow> json retry_result \<times> client_state" where
  "client_get now done url config transport rnd st =
     (let use = (case useCache config of None \<Rightarrow> True | Some b \<Rightarrow> b);
          swr = (case staleWhileRevalidate config of None \<Rightarrow> False | Some b \<Rightarrow> b);
          retry = (case retryConfig config of None \<Rightarrow> Profile standard | Some r \<Rightarrow> r);
          key = key_or_url (cacheKey config) url;
          looked = (if use then cache_get apiCache_config now key (params config) (apiCache st)
                    else (None, apiCache st));
          st1 = st\<lparr>apiCache := snd looked\<rparr>;
          cached = (case fst looked of None \<Rightarrow> None | Some v \<Rightarrow> if truthy v then Some v else None)
      in case cached of
           Some v \<Rightarrow>
             (\<lparr>outcome = Inr v, calls = 0, sleeps = []\<rparr>,
              if swr then refreshInBackground url (params config) (cacheTTL config) (cacheKey config) st1
              else st1)
         | None \<Rightarrow>
             (let r = fresh_request url retry transport rnd
              in (r, case outcome r of
                       Inr result \<Rightarrow>
                         if use
                         then st1\<lparr>apiCache := cache_set apiCache_config done key result
                                                  (params config) (cacheTTL config) (apiCache st1)\<rparr>
                         else st1
                     | Inl t \<Rightarrow> st1)))"

text \<open>What happens to a client over time: calls of \<open>get\<close> and background requests settling.\<close>

datatype client_event =
    CallGet int int string CachedRequestConfig "int \<Rightarrow> js_error + json" "int \<Rightarrow> real"
  | CallRefresh string params "int option" "string option"
  | Settle int nat "js_error + json"

fun client_step :: "client_event \<Rightarrow> client_state \<Rightarrow> client_state" where
  "client_step (CallGet now done url config transport rnd) st =
     snd (client_get now done url config transport rnd st)"
| "client_step (CallRefresh url ps ttl_opt ck) st = refreshInBackground url ps ttl_opt ck st"
| "client_step (Settle now promise result) st = settle_refresh now promise result st"

definition run_client :: "client_event list \<Rightarrow> client_state" where
  "run_client evs = fold client_step evs initial_client"

text \<open>The background requests in flight for a key.\<close>

definition refreshes_for :: "string \<Rightarrow> client_state \<Rightarrow> (nat \<times> refresh) list" where
  "refreshes_for key st = filter (\<lambda>r. rf_key (snd r) = key) (in_flight st)"

text \<open>
  The map and the requests in flight describe each other: the map holds exactly the keys
  of the requests in flight, in the same order, each with its promise; no key and no
  promise occurs twice.
\<close>

definition client_inv :: "client_state \<Rightarrow> bool" where
  "client_inv st \<longleftrightarrow>
     backgroundRefreshPromises st = map (\<lambda>r. (rf_key (snd r), fst r)) (in_flight st)
     \<and> distinct (map fst (backgroundRefreshPromises st))
     \<and> distinct (map fst (in_flight st))
     \<and> (\<forall>r \<in> set (in_flight st). fst r < next_promise st)"

text \<open>Two transport failures used as examples: the server answers 404, and it answers 503.\<close>

definition not_found_failure :: js_error where
  "not_found_failure =
     transport_error (Text ''Request failed with status code 404'')
       (Some \<lparr>resp_status = 404, resp_message = None\<rparr>)"

definition unavailable_failure :: js_error where
  "unavailable_failure =
     transport_error (Text ''Request failed with status code 503'')
       (Some \<lparr>resp_status = 503, resp_message = None\<rparr>)"

section \<open>useOptimisticUpdate\<close>

record 'a OptimisticState =
  os_data :: 'a
  os_loading :: bool
  os_error :: "js_error option"
  os_isOptimistic :: bool

text \<open>
  The hook: its state, its two refs, and the timeouts that are pending, each with its
  handle, the time it is due and the error its callback closed over. The callbacks a
  component holds are those of its latest render; \<open>executeOptimisticUpdate\<close> closes over
  the \<open>state.data\<close> of that render (it is among the dependencies of \<open>useCallback\<close>), so
  \<open>rendered_data\<close> keeps the data the latest render saw. The state updates themselves
  are functional (\<open>setState(prev => ...)\<close>) and act on the current state.
\<close>

record 'a optimistic_hook =
  state :: "'a OptimisticState"
  originalDataRef :: 'a
  rendered_data :: 'a
  rollbackTimeoutRef :: "nat option"
  timers :: "(nat \<times> int \<times> js_error) list"
  next_timer :: nat
  rollbackDelay :: int

definition useOptimisticUpdate :: "'a \<Rightarrow> int option \<Rightarrow> 'a optimistic_hook" where
  "useOptimisticUpdate initialData delay_opt =
     \<lparr>state = \<lparr>os_data = initialData, os_loading = False, os_error = None, os_isOptimistic = False\<rparr>,
      originalDataRef = initialData,
      rendered_data = initialData,
      rollbackTimeoutRef = None,
      timers = [],
      next_timer = 0,
      rollbackDelay = (case delay_opt of None \<Rightarrow> 3000 | Some d \<Rightarrow> d)\<rparr>"

definition clearTimeout :: "nat option \<Rightarrow> (nat \<times> int \<times> js_error) list \<Rightarrow> (nat \<times> int \<times> js_error) list" where
  "clearTimeout handle ts = (case handle of None \<Rightarrow> ts | Some i \<Rightarrow> filter (\<lambda>tm. fst tm \<noteq> i) ts)"

text \<open>\<open>executeOptimisticUpdate\<close> up to the call of the update function.\<close>

definition executeOptimisticUpdate_begin :: "'a \<Rightarrow> 'a optimistic_hook \<Rightarrow> 'a optimistic_hook" where
  "executeOptimisticUpdate_begin optimisticData h =
     h\<lparr>timers := clearTimeout (rollbackTimeoutRef h) (timers h),
       originalDataRef := rendered_data h,
       state := (state h)\<lparr>os_data := optimisticData, os_loading := True, os_error := None,
                           os_isOptimistic := True\<rparr>\<rparr>"

text \<open>The update function returned \<open>result\<close>.\<close>

definition executeOptimisticUpdate_resolve :: "'a \<Rightarrow> 'a optimistic_hook \<Rightarrow> 'a optimistic_hook" where
  "executeOptimisticUpdate_resolve result h =
     h\<lparr>state := (state h)\<lparr>os_data := result, os_loading := False, os_error := None,
                           os_isOptimistic := False\<rparr>\<rparr>"

definition as_network_error :: "js_error \<Rightarrow> js_error" where
  "as_network_error error =
     (if instanceof_NetworkError error then error
      else NetworkError (msg_or (message error) (Localized UpdateFailed)) None empty_context False)"

text \<open>The update function threw \<open>error\<close> at time \<open>now\<close>: the rollback timeout is set.\<close>

definition executeOptimisticUpdate_reject :: "int \<Rightarrow> js_error \<Rightarrow> 'a optimistic_hook \<Rightarrow> 'a optimistic_hook" where
  "executeOptimisticUpdate_reject now error h =
     (let networkError = as_network_error error;
          handle = next_timer h
      in h\<lparr>timers := timers h @ [(handle, now + rollbackDelay h, networkError)],
            rollbackTimeoutRef := Some handle,
            next_timer := Suc handle,
            state := (state h)\<lparr>os_loading := False, os_error := Some networkError,
                                os_isOptimistic := True\<rparr>\<rparr>)"

text \<open>
  The runtime runs the callback of timeout \<open>handle\<close> at time \<open>now\<close>; nothing happens when
  the timeout is not pending or not yet due.
\<close>

definition fire_timer :: "int \<Rightarrow> nat \<Rightarrow> 'a optimistic_hook \<Rightarrow> 'a optimistic_hook" where
  "fire_timer now handle h =
     (case map_of (timers h) handle of
        None \<Rightarrow> h
      | Some (due, networkError) \<Rightarrow>
          if due \<le> now
          then h\<lparr>timers := filter (\<lambda>tm. fst tm \<noteq> handle) (timers h),
                 state := (state h)\<lparr>os_data := originalDataRef h, os_loading := False,
                                     os_error := Some networkError, os_isOptimistic := False\<rparr>\<rparr>
          else h)"

definition rollbackImmediately :: "'a optimistic_hook \<Rightarrow> 'a optimistic_hook" where
  "rollbackImmediately h =
     h\<lparr>timers := clearTimeout (rollbackTimeoutRef h) (timers h),
       state := (state h)\<lparr>os_data := originalDataRef h, os_isOptimistic := False, os_error := None\<rparr>\<rparr>"

definition updateData :: "'a \<Rightarrow> 'a optimistic_hook \<Rightarrow> 'a optimistic_hook" where
  "updateData newData h =
     h\<lparr>state := (state h)\<lparr>os_data := newData, os_isOptimistic := False\<rparr>,
       originalDataRef := newData\<rparr>"

definition clearError :: "'a optimistic_hook \<Rightarrow> 'a optimistic_hook" where
  "clearError h = h\<lparr>state := (state h)\<lparr>os_error := None\<rparr>\<rparr>"

text \<open>The component renders again: its callbacks now close over the current data.\<close>

definition render :: "'a optimistic_hook \<Rightarrow> 'a optimistic_hook" where
  "render h = h\<lparr>rendered_data := os_data (state h)\<rparr>"

text \<open>What can happen to a hook, and a run of such events from its initial state.\<close>

datatype 'a hook_event =
    Begin 'a
  | Resolve 'a
  | Reject int js_error
  | Fire int nat
  | RollbackImmediately
  | UpdateData 'a
  | ClearError
  | Render

fun hook_step :: "'a hook_event \<Rightarrow> 'a optimistic_hook \<Rightarrow> 'a optimistic_hook" where
  "hook_step (Begin d) h = executeOptimisticUpdate_begin d h"
| "hook_step (Resolve r) h = executeOptimisticUpdate_resolve r h"
| "hook_step (Reject now e) h = executeOptimisticUpdate_reject now e h"
| "hook_step (Fire now handle) h = fire_timer now handle h"
| "hook_step RollbackImmediately h = rollbackImmediately h"
| "hook_step (UpdateData d) h = updateData d h"
| "hook_step ClearError h = clearError h"
| "hook_step Render h = render h"

definition run_hook :: "'a \<Rightarrow> int option \<Rightarrow> 'a hook_event list \<Rightarrow> 'a optimistic_hook" where
  "run_hook initialData delay_opt evs = fold hook_step evs (useOptimisticUpdate initialData delay_opt)"

text \<open>
  In the words of the specification, a value is confirmed when it is the authoritative
  result of an update or was set by the caller: the confirmed value of a run is the
  initial data, replaced by the result of every \<open>Resolve\<close> and the data of every
  \<open>UpdateData\<close>. A rollback confirms nothing.
\<close>

fun confirmed_from :: "'a \<Rightarrow> 'a hook_event list \<Rightarrow> 'a" where
  "confirmed_from c [] = c"
| "confirmed_from c (Resolve r # evs) = confirmed_from r evs"
| "confirmed_from c (UpdateData d # evs) = confirmed_from d evs"
| "confirmed_from c (ev # evs) = confirmed_from c evs"

definition confirmed_value :: "'a \<Rightarrow> 'a hook_event list \<Rightarrow> 'a" where
  "confirmed_value initialData evs = confirmed_from initialData evs"

text \<open>
  The calls of the caller that start a further update or confirm a value
  (\<open>executeOptimisticUpdate\<close>, \<open>updateData\<close>), and the events that leave the data on display
  and the timeouts alone.
\<close>

fun apply_or_confirm :: "'a hook_event \<Rightarrow> bool" where
  "apply_or_confirm (Begin d) = True"
| "apply_or_confirm (UpdateData d) = True"
| "apply_or_confirm ev = False"

fun leaves_display :: "'a hook_event \<Rightarrow> bool" where
  "leaves_display Render = True"
| "leaves_display ClearError = True"
| "leaves_display ev = False"

text \<open>
  The events that leave a pending timeout \<open>handle\<close> and the remembered value alone: no
  further update, no \<open>updateData\<close>, no \<open>rollbackImmediately\<close>, and not the run of that
  timeout itself.
\<close>

fun leaves_timer :: "nat \<Rightarrow> 'a hook_event \<Rightarrow> bool" where
  "leaves_timer handle (Begin d) = False"
| "leaves_timer handle (UpdateData d) = False"
| "leaves_timer handle RollbackImmediately = False"
| "leaves_timer handle (Fire now i) = (i \<noteq> handle)"
| "leaves_timer handle ev = True"

text \<open>
  A run ends with a confirmation that has been rendered: it is empty, or its last two
  events are a \<open>Resolve\<close> or an \<open>UpdateData\<close> and the render that follows.
\<close>

definition ends_confirmed :: "'a hook_event list \<Rightarrow> bool" where
  "ends_confirmed evs =
     (case rev evs of
        [] \<Rightarrow> True
      | Render # Resolve r # rest \<Rightarrow> True
      | Render # UpdateData d # rest \<Rightarrow> True
      | _ \<Rightarrow> False)"

text \<open>The handles of the pending timeouts are distinct and older than the next handle.\<close>

definition timers_inv :: "'a optimistic_hook \<Rightarrow> bool" where
  "timers_inv h \<longleftrightarrow>
     (\<forall>tm \<in> set (timers h). fst tm < next_timer h) \<and> distinct (map fst (timers h))"

section \<open>File validation\<close>

record js_file =
  file_name :: string
  file_size :: nat
  file_type :: string
  lastModified :: int

record FileValidationConfig =
  v_maxSize :: nat
  allowedTypes :: "string list"
  allowedExtensions :: "string list"
  maxFiles :: "nat option"

definition DEFAULT_VALIDATION_CONFIG :: FileValidationConfig where
  "DEFAULT_VALIDATION_CONFIG =
     \<lparr>v_maxSize = 10 * 1024 * 1024,
      allowedTypes = [''application/pdf'', ''application/msword'',
        ''application/vnd.openxmlformats-officedocument.wordprocessingml.document'',
        ''text/plain'', ''text/markdown'', ''application/rtf''],
      allowedExtensions = [''.pdf'', ''.doc'', ''.docx'', ''.txt'', ''.md'', ''.rtf''],
      maxFiles = Some 10\<rparr>"

text \<open>\<open>String.prototype.split\<close> on a one-character separator, and \<open>toLowerCase\<close> on ASCII.\<close>

fun split_on :: "char \<Rightarrow> string \<Rightarrow> string list" where
  "split_on c [] = [[]]"
| "split_on c (x # xs) =
     (if x = c then [] # split_on c xs
      else (case split_on c xs of [] \<Rightarrow> [[x]] | y # ys \<Rightarrow> (x # y) # ys))"

definition lower_char :: "char \<Rightarrow> char" where
  "lower_char c =
     (case map_of (zip ''ABCDEFGHIJKLMNOPQRSTUVWXYZ'' ''abcdefghijklmnopqrstuvwxyz'') c of
        None \<Rightarrow> c
      | Some l \<Rightarrow> l)"

definition toLowerCase :: "string \<Rightarrow> string" where
  "toLowerCase s = map lower_char s"

definition ends_with :: "string \<Rightarrow> string \<Rightarrow> bool" where
  "ends_with s suffix \<longleftrightarrow> length suffix \<le> length s \<and> drop (length s - length suffix) s = suffix"

record FileInfo =
  fi_name :: string
  fi_size :: nat
  fi_type :: string
  fi_extension :: string
  fi_lastModified :: int

definition getFileInfo :: "js_file \<Rightarrow> FileInfo" where
  "getFileInfo file =
     \<lparr>fi_name = file_name file, fi_size = file_size file, fi_type = file_type file,
      fi_extension = ''.'' @ toLowerCase (last (split_on CHR ''.'' (file_name file))),
      fi_lastModified = lastModified file\<rparr>"

text \<open>
  The messages of the validator are fixed Russian texts around the file name; each is a
  constructor that carries the name.
\<close>

datatype validation_error =
    TooLarge string
  | UnsupportedType string
  | UnsupportedExtension string
  | EmptyFile string
  | SuspiciousName string

datatype validation_warning = LargeFile string

datatype global_error = TooManyFiles | DuplicateNames "string list" | TotalTooLarge

record FileValidationResult =
  vr_isValid :: bool
  vr_errors :: "validation_error list"
  vr_warnings :: "validation_warning list"

text \<open>The three suspicious-name patterns, in the order the loop tries them.\<close>

definition suspicious_extension :: "string \<Rightarrow> bool" where
  "suspicious_extension nm \<longleftrightarrow>
     list_ex (\<lambda>ext. ends_with (toLowerCase nm) (''.'' @ ext))
       [''exe'', ''bat'', ''cmd'', ''scr'', ''com'', ''pif'', ''vbs'', ''js'', ''jar'', ''sh'']"

definition leading_dot :: "string \<Rightarrow> bool" where
  "leading_dot nm \<longleftrightarrow> (case nm of [] \<Rightarrow> False | c # cs \<Rightarrow> c = CHR ''.'')"

definition reserved_character :: "string \<Rightarrow> bool" where
  "reserved_character nm \<longleftrightarrow>
     list_ex (\<lambda>c. c \<in> set [CHR ''<'', CHR ''>'', CHR '':'', CHR 0x22, CHR ''|'', CHR ''?'', CHR ''*'']
                  \<or> (of_char c :: nat) < 32) nm"

definition validateFile :: "js_file \<Rightarrow> FileValidationConfig \<Rightarrow> FileValidationResult" where
  "validateFile file config =
     (let fileInfo = getFileInfo file;
          e1 = (if fi_size fileInfo > v_maxSize config then [TooLarge (fi_name fileInfo)] else []);
          w1 = (if 10 * fi_size fileInfo > 8 * v_maxSize config then [LargeFile (fi_name fileInfo)] else []);
          e2 = (if length (allowedTypes config) > 0 \<and> fi_type fileInfo \<notin> set (allowedTypes config)
                then [UnsupportedType (fi_name fileInfo)] else []);
          e3 = (if length (allowedExtensions config) > 0
                     \<and> fi_extension fileInfo \<notin> set (allowedExtensions config)
                then [UnsupportedExtension (fi_name fileInfo)] else []);
          e4 = (if fi_size fileInfo = 0 then [EmptyFile (fi_name fileInfo)] else []);
          e5 = (if suspicious_extension (fi_name fileInfo) \<or> leading_dot (fi_name fileInfo)
                     \<or> reserved_character (fi_name fileInfo)
                then [SuspiciousName (fi_name fileInfo)] else []);
          errs = e1 @ e2 @ e3 @ e4 @ e5
      in \<lparr>vr_isValid = (length errs = 0), vr_errors = errs, vr_warnings = w1\<rparr>)"

text \<open>
  \<open>fileNames.filter((name, index) => fileNames.indexOf(name) !== index)\<close>: the names
  that occurred before at a smaller index.
\<close>

fun duplicates_after :: "string list \<Rightarrow> string list \<Rightarrow> string list" where
  "duplicates_after seen [] = []"
| "duplicates_after seen (x # xs) =
     (if x \<in> set seen then x # duplicates_after (seen @ [x]) xs
      else duplicates_after (seen @ [x]) xs)"

text \<open>\<open>[...new Set(xs)]\<close>: the elements of a list without repetition, in order of first occurrence.\<close>

fun unique_from :: "string list \<Rightarrow> string list \<Rightarrow> string list" where
  "unique_from seen [] = []"
| "unique_from seen (x # xs) =
     (if x \<in> set seen then unique_from seen xs else x # unique_from (seen @ [x]) xs)"

record validation =
  isValid :: bool
  results :: "(js_file \<times> FileValidationResult) list"
  globalErrors :: "global_error list"
  totalSize :: nat

definition validateFiles :: "js_file list \<Rightarrow> FileValidationConfig \<Rightarrow> validation" where
  "validateFiles files config =
     (let res = map (\<lambda>file. (file, validateFile file config)) files;
          total = sum_list (map file_size files);
          g1 = (case maxFiles config of
                  None \<Rightarrow> []
                | Some m \<Rightarrow> if m \<noteq> 0 \<and> length files > m then [TooManyFiles] else []);
          fileNames = map (\<lambda>f. toLowerCase (file_name f)) files;
          dups = duplicates_after [] fileNames;
          g2 = (if length dups > 0 then [DuplicateNames (unique_from [] dups)] else []);
          maxTotalSize = v_maxSize config *
                           (case maxFiles config of None \<Rightarrow> 10 | Some m \<Rightarrow> if m = 0 then 10 else m);
          g3 = (if total > maxTotalSize then [TotalTooLarge] else []);
          globals = g1 @ g2 @ g3
      in \<lparr>isValid = (length globals = 0 \<and> list_all (\<lambda>r. vr_isValid (snd r)) res),
          results = res, globalErrors = globals, totalSize = total\<rparr>)"

section \<open>useFileUpload\<close>

datatype upload_status = S_pending | S_uploading | S_completed | S_error | S_cancelled

text \<open>The \<open>error\<close> text of a task: the validator's messages joined, or a message.\<close>

datatype upload_message = Joined "validation_error list" | Msg message

record UploadProgress =
  fileId :: string
  fileName :: string
  progress :: nat
  uploaded :: nat
  total :: nat
  speed :: real
  up_status :: upload_status
  up_error :: "upload_message option"

text \<open>
  A request sent by \<open>uploadSingleFile\<close> and not settled yet: its abort controller, the file
  it uploads, and the batch (the call of \<open>uploadFiles\<close>) that waits for it, if any.
\<close>

record fetch =
  f_controller :: nat
  f_fileId :: string
  f_size :: nat
  f_batch :: "nat option"

record batch_result =
  br_fileId :: string
  br_success :: bool
  br_error :: "js_error option"

record upload_hook =
  validationConfig :: FileValidationConfig
  maxConcurrentUploads :: nat
  selectedFiles :: "js_file list"
  uploadProgress :: "UploadProgress jsmap"
  validationResults :: "validation option"
  abortControllers :: "nat jsmap"
  uploadQueue :: "string list"
  activeUploads :: "string list"
  fetches :: "fetch list"
  aborted :: "nat list"
  next_controller :: nat
  batches :: "(nat \<times> nat \<times> batch_result list) list"
  next_batch :: nat
  reports :: "batch_result list list"

definition useFileUpload :: "FileValidationConfig option \<Rightarrow> nat option \<Rightarrow> upload_hook" where
  "useFileUpload config_opt max_opt =
     \<lparr>validationConfig = (case config_opt of None \<Rightarrow> DEFAULT_VALIDATION_CONFIG | Some c \<Rightarrow> c),
      maxConcurrentUploads = (case max_opt of None \<Rightarrow> 3 | Some k \<Rightarrow> k),
      selectedFiles = [], uploadProgress = [], validationResults = None,
      abortControllers = [], uploadQueue = [], activeUploads = [], fetches = [], aborted = [],
      next_controller = 0, batches = [], next_batch = 0, reports = []\<rparr>"

definition generateFileId :: "js_file \<Rightarrow> string" where
  "generateFileId file =
     file_name file @ ''_'' @ string_of_nat (file_size file) @ ''_'' @ string_of_int (lastModified file)"

definition selectFiles :: "js_file list \<Rightarrow> upload_hook \<Rightarrow> upload_hook" where
  "selectFiles fileArray h =
     (let v = validateFiles fileArray (validationConfig h);
          progressMap = fold (\<lambda>file m.
              map_set (generateFileId file)
                \<lparr>fileId = generateFileId file, fileName = file_name file, progress = 0, uploaded = 0,
                 total = file_size file, speed = 0,
                 up_status = (if isValid v then S_pending else S_error),
                 up_error = (case find (\<lambda>r. fst r = file) (results v) of
                               None \<Rightarrow> None
                             | Some r \<Rightarrow> Some (Joined (vr_errors (snd r))))\<rparr> m) fileArray []
      in h\<lparr>selectedFiles := fileArray, validationResults := Some v, uploadProgress := progressMap\<rparr>)"

text \<open>\<open>updateProgress\<close>: the task, when it is tracked, is replaced by its update.\<close>

definition updateProgress :: "string \<Rightarrow> (UploadProgress \<Rightarrow> UploadProgress) \<Rightarrow> upload_hook \<Rightarrow> upload_hook" where
  "updateProgress fid updates h =
     (case map_get fid (uploadProgress h) of
        None \<Rightarrow> h
      | Some current \<Rightarrow> h\<lparr>uploadProgress := map_set fid (updates current) (uploadProgress h)\<rparr>)"

text \<open>
  \<open>uploadSingleFile\<close> up to its first \<open>await\<close>: the controller is registered, the task
  becomes \<open>uploading\<close> and the request is sent.
\<close>

definition uploadSingleFile_start :: "js_file \<Rightarrow> nat option \<Rightarrow> upload_hook \<Rightarrow> upload_hook" where
  "uploadSingleFile_start file batch h =
     (let fid = generateFileId file;
          abortController = next_controller h;
          h1 = h\<lparr>abortControllers := map_set fid abortController (abortControllers h),
                 next_controller := Suc abortController\<rparr>;
          h2 = updateProgress fid (\<lambda>p. p\<lparr>up_status := S_uploading\<rparr>) h1
      in h2\<lparr>fetches := fetches h2 @
                 [\<lparr>f_controller = abortController, f_fileId = fid, f_size = file_size file,
                   f_batch = batch\<rparr>]\<rparr>)"

text \<open>
  The loop of \<open>processUploadQueue\<close> over the queue it finds; the queue left behind is the
  part it did not reach.
\<close>

fun processUploadQueue :: "string list \<Rightarrow> upload_hook \<Rightarrow> upload_hook" where
  "processUploadQueue [] h = h\<lparr>uploadQueue := []\<rparr>"
| "processUploadQueue (fid # rest) h =
     (if length (activeUploads h) < maxConcurrentUploads h then
        (if fid = [] then processUploadQueue rest h
         else (case find (\<lambda>f. generateFileId f = fid) (selectedFiles h) of
                 None \<Rightarrow> processUploadQueue rest h
               | Some file \<Rightarrow>
                   processUploadQueue rest
                     (uploadSingleFile_start file None
                        (h\<lparr>activeUploads := (if fid \<in> set (activeUploads h) then activeUploads h
                                               else activeUploads h @ [fid])\<rparr>))))
      else h\<lparr>uploadQueue := fid # rest\<rparr>)"

text \<open>
  \<open>uploadFiles\<close> up to \<open>Promise.allSettled\<close>: the guard, the queue, the run of
  \<open>processUploadQueue\<close>, and then \<open>uploadSingleFile\<close> called for every selected file by
  the \<open>map\<close> that collects the results of the batch.
\<close>

definition uploadFiles_start :: "upload_hook \<Rightarrow> upload_hook" where
  "uploadFiles_start h =
     (if \<not> (case validationResults h of None \<Rightarrow> False | Some v \<Rightarrow> isValid v)
         \<or> length (selectedFiles h) = 0
      then h
      else (let h1 = processUploadQueue (map generateFileId (selectedFiles h)) h;
                b = next_batch h1;
                h2 = h1\<lparr>batches := batches h1 @ [(b, length (selectedFiles h), [])],
                       next_batch := Suc b\<rparr>
            in fold (\<lambda>file. uploadSingleFile_start file (Some b)) (selectedFiles h) h2))"

text \<open>How a request ends: an \<open>ok\<close> response, a response that is not \<open>ok\<close>, or a thrown error.\<close>

datatype fetch_result = Ok | NotOk int string | Threw js_error

definition abort_error :: js_error where
  "abort_error = (transport_error (Text ''The operation was aborted.'') None)\<lparr>name := AbortError\<rparr>"

definition upload_network_error :: "js_error \<Rightarrow> js_error" where
  "upload_network_error e =
     (if instanceof_NetworkError e then e
      else NetworkError (msg_or (message e) (Localized UploadFailed)) None empty_context False)"

text \<open>One result is pushed for a batch; the report is made when its last promise settles.\<close>

definition push_result :: "nat \<Rightarrow> batch_result \<Rightarrow> upload_hook \<Rightarrow> upload_hook" where
  "push_result b r h =
     (case map_of (batches h) b of
        None \<Rightarrow> h
      | Some (waiting, rs) \<Rightarrow>
          if waiting \<le> 1
          then h\<lparr>batches := filter (\<lambda>x. fst x \<noteq> b) (batches h), reports := reports h @ [rs @ [r]]\<rparr>
          else h\<lparr>batches := map (\<lambda>x. if fst x = b then (b, waiting - 1, rs @ [r]) else x) (batches h)\<rparr>)"

text \<open>
  The request of controller \<open>ctl\<close> settles: the rest of \<open>uploadSingleFile\<close> runs, then the
  handler of the batch. A request whose controller was aborted ends with an \<open>AbortError\<close>.
\<close>

definition settle_fetch :: "nat \<Rightarrow> fetch_result \<Rightarrow> upload_hook \<Rightarrow> upload_hook" where
  "settle_fetch ctl result h =
     (case find (\<lambda>f. f_controller f = ctl) (fetches h) of
        None \<Rightarrow> h
      | Some f \<Rightarrow>
          (let fid = f_fileId f;
               res = (if ctl \<in> set (aborted h) then Threw abort_error else result);
               thrown = (case res of
                           Ok \<Rightarrow> None
                         | NotOk st statusText \<Rightarrow>
                             Some (NetworkError (Text (''Upload failed: '' @ statusText)) (Some st)
                                     empty_context False)
                         | Threw e \<Rightarrow> Some e);
               h1 = (case thrown of
                       None \<Rightarrow>
                         updateProgress fid
                           (\<lambda>p. p\<lparr>up_status := S_completed, progress := 100, uploaded := f_size f\<rparr>) h
                     | Some e \<Rightarrow>
                         if name e = AbortError
                         then updateProgress fid
                                (\<lambda>p. p\<lparr>up_status := S_cancelled,
                                         up_error := Some (Msg (Localized UploadCancelled))\<rparr>) h
                         else updateProgress fid
                                (\<lambda>p. p\<lparr>up_status := S_error,
                                         up_error := Some (Msg (message (upload_network_error e)))\<rparr>) h);
               h2 = h1\<lparr>abortControllers := map_delete fid (abortControllers h1),
                       activeUploads := filter (\<lambda>x. x \<noteq> fid) (activeUploads h1),
                       fetches := filter (\<lambda>x. f_controller x \<noteq> ctl) (fetches h1)\<rparr>
           in case f_batch f of
                None \<Rightarrow> h2
              | Some b \<Rightarrow>
                  (case thrown of
                     None \<Rightarrow> push_result b \<lparr>br_fileId = fid, br_success = True, br_error = None\<rparr> h2
                   | Some e \<Rightarrow>
                       if name e = AbortError
                       then push_result b \<lparr>br_fileId = fid, br_success = True, br_error = None\<rparr> h2
                       else push_result b
                              \<lparr>br_fileId = fid, br_success = False,
                               br_error = Some (upload_network_error e)\<rparr> h2)))"

definition cancelUpload :: "string \<Rightarrow> upload_hook \<Rightarrow> upload_hook" where
  "cancelUpload fid h =
     (let h1 = (case map_get fid (abortControllers h) of
                  None \<Rightarrow> h
                | Some abortController \<Rightarrow>
                    h\<lparr>aborted := (if abortController \<in> set (aborted h) then aborted h
                                    else aborted h @ [abortController])\<rparr>);
          h2 = h1\<lparr>uploadQueue := filter (\<lambda>x. x \<noteq> fid) (uploadQueue h1)\<rparr>
      in updateProgress fid
           (\<lambda>p. p\<lparr>up_status := S_cancelled, up_error := Some (Msg (Localized UploadCancelled))\<rparr>) h2)"

definition cancelAllUploads :: "upload_hook \<Rightarrow> upload_hook" where
  "cancelAllUploads h =
     (let h1 = h\<lparr>aborted := aborted h @ filter (\<lambda>c. c \<notin> set (aborted h)) (map snd (abortControllers h)),
                 abortControllers := [], uploadQueue := [], activeUploads := []\<rparr>
      in fold (\<lambda>entry hh.
                 if up_status (snd entry) = S_uploading \<or> up_status (snd entry) = S_pending
                 then updateProgress (fst entry)
                        (\<lambda>p. p\<lparr>up_status := S_cancelled,
                                 up_error := Some (Msg (Localized UploadCancelled))\<rparr>) hh
                 else hh)
           (uploadProgress h) h1)"

text \<open>The number of tasks whose status is \<open>uploading\<close> (\<open>uploadStats.uploading\<close>).\<close>

definition count_uploading :: "upload_hook \<Rightarrow> nat" where
  "count_uploading h = length (filter (\<lambda>e. up_status (snd e) = S_uploading) (uploadProgress h))"

definition status_of :: "string \<Rightarrow> upload_hook \<Rightarrow> upload_status option" where
  "status_of fid h = map_option up_status (map_get fid (uploadProgress h))"

text \<open>Example files: four documents and one file with an extension that is not allowed.\<close>

definition doc :: "string \<Rightarrow> js_file" where
  "doc nm = \<lparr>file_name = nm, file_size = 1000, file_type = ''application/pdf'', lastModified = 1\<rparr>"

definition picture :: js_file where
  "picture = \<lparr>file_name = ''photo.png'', file_size = 1000, file_type = ''image/png'', lastModified = 1\<rparr>"

text \<open>The tracked tasks with their status only, and the change of one task's status.\<close>

definition statuses :: "upload_hook \<Rightarrow> (string \<times> upload_status) list" where
  "statuses h = map (\<lambda>e. (fst e, up_status (snd e))) (uploadProgress h)"

definition set_status :: "string \<Rightarrow> upload_status \<Rightarrow> (string \<times> upload_status) list \<Rightarrow> (string \<times> upload_status) list" where
  "set_status fid s sl = map (\<lambda>e. if fst e = fid then (fid, s) else e) sl"

text \<open>The status every task gets from \<open>selectFiles\<close>.\<close>

definition initial_status :: "js_file list \<Rightarrow> upload_hook \<Rightarrow> upload_status" where
  "initial_status files h = (if isValid (validateFiles files (validationConfig h)) then S_pending else S_error)"

definition four_documents :: "js_file list" where
  "four_documents = [doc ''a.pdf'', doc ''b.pdf'', doc ''c.pdf'', doc ''d.pdf'']"


section \<open>Properties of the cache\<close>

subsection \<open>The store as an insertion-ordered map\<close>



lemma fold_map_delete:
  "fold map_delete ks m = filter (\<lambda>e. fst e \<notin> set ks) m"
  by (induction ks arbitrary: m) (auto simp: map_delete_def intro: filter_cong)

lemma fold_delete_if:
  "fold (\<lambda>e m. if P e then map_delete (fst e) m else m) xs m =
     filter (\<lambda>e. fst e \<notin> fst ` {x \<in> set xs. P x}) m"
proof (induction xs arbitrary: m)
  case Nil
  then show ?case by simp
next
  case (Cons x xs)
  show ?case
    by (simp add: Cons.IH map_delete_def) (auto intro!: filter_cong)
qed

lemma remove_expired_filter:
  assumes "distinct (map fst c)"
  shows "remove_expired now c = filter (\<lambda>e. \<not> isExpired now (snd e)) c"
proof -
  have "fst e \<notin> fst ` {x \<in> set c. isExpired now (snd x)} \<longleftrightarrow> \<not> isExpired now (snd e)"
    if "e \<in> set c" for e
  proof -
    have "x = e" if "x \<in> set c" "fst x = fst e" for x
      using assms that \<open>e \<in> set c\<close> by (meson eq_key_imp_eq_value prod_eqI distinct_map inj_onD)
    then show ?thesis using that by auto
  qed
  then show ?thesis
    unfolding remove_expired_def fold_delete_if by (auto intro!: filter_cong)
qed

lemma filter_not_in_take:
  assumes "distinct (map fst c)"
  shows "filter (\<lambda>e. fst e \<notin> set (take n (map fst c))) c = drop n c"
proof -
  have d: "distinct (map fst (take n c) @ map fst (drop n c))"
    using assms by (metis append_take_drop_id map_append)
  have t: "filter (\<lambda>e. fst e \<notin> set (take n (map fst c))) (take n c) = []"
    by (auto simp: filter_empty_conv take_map)
  have "fst e \<notin> set (take n (map fst c))" if "e \<in> set (drop n c)" for e
    using d that by (auto simp: take_map)
  then have dr: "filter (\<lambda>e. fst e \<notin> set (take n (map fst c))) (drop n c) = drop n c"
    by (auto simp: filter_id_conv)
  have "filter (\<lambda>e. fst e \<notin> set (take n (map fst c))) (take n c @ drop n c) = drop n c"
    unfolding filter_append t dr by simp
  then show ?thesis by simp
qed

lemma enforce_size_drop:
  "distinct (map fst c) \<Longrightarrow> enforce_size cfg c = drop (length c - maxSize cfg) c"
  by (simp add: enforce_size_def fold_map_delete filter_not_in_take)

lemma cleanup_eq:
  assumes "distinct (map fst c)"
  shows "cleanup cfg now c =
     (let live = filter (\<lambda>e. \<not> isExpired now (snd e)) c in drop (length live - maxSize cfg) live)"
  using assms by (simp add: cleanup_def remove_expired_filter enforce_size_drop distinct_map_filter Let_def)

lemma length_cleanup: "distinct (map fst c) \<Longrightarrow> length (cleanup cfg now c) \<le> maxSize cfg"
  by (simp add: cleanup_eq Let_def)

lemma distinct_cleanup: "distinct (map fst c) \<Longrightarrow> distinct (map fst (cleanup cfg now c))"
  by (simp add: cleanup_eq Let_def distinct_map_filter distinct_drop drop_map[symmetric])

lemma distinct_map_set: "distinct (map fst m) \<Longrightarrow> distinct (map fst (map_set k v m))"
proof -
  assume d: "distinct (map fst m)"
  have e: "map fst (map (\<lambda>e. if fst e = k then (k, v) else e) m) = map fst m"
    by (induction m) auto
  show ?thesis
  proof (cases "map_has k m")
    case True
    then show ?thesis using d by (simp only: map_set_def e if_True)
  next
    case False
    then show ?thesis using d by (simp add: map_set_def map_has_def)
  qed
qed

lemma distinct_map_delete: "distinct (map fst m) \<Longrightarrow> distinct (map fst (map_delete k m))"
  by (simp add: map_delete_def distinct_map_filter)

lemma distinct_fold_delete: "distinct (map fst m) \<Longrightarrow> distinct (map fst (fold map_delete ks m))"
  by (simp add: fold_map_delete distinct_map_filter)

lemma distinct_apply_cache_op:
  "distinct (map fst c) \<Longrightarrow> distinct (map fst (apply_cache_op cfg opn c))"
  by (cases opn)
     (simp_all add: cache_get_def cache_set_def invalidate_def invalidatePattern_def clear_def Let_def
        distinct_cleanup distinct_map_set distinct_map_delete distinct_fold_delete split: option.splits)

lemma length_apply_cache_op:
  "distinct (map fst c) \<Longrightarrow> length c \<le> maxSize cfg \<Longrightarrow> length (apply_cache_op cfg opn c) \<le> maxSize cfg"
  by (cases opn)
     (auto simp: cache_get_def cache_set_def invalidate_def invalidatePattern_def clear_def Let_def
        length_cleanup distinct_map_set map_delete_def fold_map_delete
        intro: order_trans[OF length_filter_le] split: option.splits)

lemma distinct_run_cache: "distinct (map fst (run_cache cfg ops))"
proof -
  have "distinct (map fst c) \<Longrightarrow> distinct (map fst (fold (apply_cache_op cfg) ops c))" for c
    by (induction ops arbitrary: c) (simp_all add: distinct_apply_cache_op)
  then show ?thesis by (simp add: run_cache_def)
qed

lemma length_run_cache: "length (run_cache cfg ops) \<le> maxSize cfg"
proof -
  have "distinct (map fst c) \<Longrightarrow> length c \<le> maxSize cfg \<Longrightarrow>
        length (fold (apply_cache_op cfg) ops c) \<le> maxSize cfg" for c
    by (induction ops arbitrary: c) (simp_all add: distinct_apply_cache_op length_apply_cache_op)
  then show ?thesis by (simp add: run_cache_def)
qed

lemma cache_set_eq:
  assumes "distinct (map fst c)"
  shows "cache_set cfg now url d ps t c =
     (let live = filter (\<lambda>e. \<not> isExpired now (snd e))
                   (map_set (generateKey url ps) \<lparr>data = d, timestamp = now, ttl = effective_ttl cfg t\<rparr> c)
      in drop (length live - maxSize cfg) live)"
  using assms by (simp add: cache_set_def Let_def cleanup_eq distinct_map_set)

lemma map_of_filter_distinct:
  assumes "distinct (map fst m)"
  shows "map_of (filter P m) k =
     (case map_of m k of None \<Rightarrow> None | Some v \<Rightarrow> if P (k, v) then Some v else None)"
  using assms by (induction m) (auto split: option.splits simp: map_of_eq_None_iff image_iff)

lemma map_set_new:
  "\<not> map_has k m \<Longrightarrow> map_set k v m = m @ [(k, v)]"
  by (simp add: map_set_def)

lemma map_of_map_set: "map_of (map_set k v m) k = Some v"
proof (cases "map_has k m")
  case True
  then have "map_of (map (\<lambda>e. if fst e = k then (k, v) else e) m) k = Some v"
    by (induction m) (auto simp: map_has_def)
  with True show ?thesis by (simp add: map_set_def)
next
  case False
  then have "map_of m k = None" by (simp add: map_has_def map_of_eq_None_iff)
  with False show ?thesis by (simp add: map_set_def map_add_def)
qed

lemma length_map_set_old: "map_has k m \<Longrightarrow> length (map_set k v m) = length m"
  by (simp add: map_set_def)

lemma set_then_get:
  fixes c :: "'a cache"
  assumes dc: "distinct (map fst c)" and lc: "length c \<le> maxSize cfg"
    and m1: "1 \<le> maxSize cfg" and st: "s \<le> t"
  shows "fst (cache_get cfg t url ps (cache_set cfg s url v ps tt c)) =
           (if t - s \<le> effective_ttl cfg tt then Some v else None)"
proof -
  define k where "k = generateKey url ps"
  define item :: "'a CacheItem" where "item = \<lparr>data = v, timestamp = s, ttl = effective_ttl cfg tt\<rparr>"
  define c1 where "c1 = map_set k item c"
  define live where "live = filter (\<lambda>e. \<not> isExpired s (snd e)) c1"
  define c2 where "c2 = drop (length live - maxSize cfg) live"
  have d1: "distinct (map fst c1)" unfolding c1_def by (rule distinct_map_set[OF dc])
  have dl: "distinct (map fst live)" unfolding live_def using d1 by (simp add: distinct_map_filter)
  have d2: "distinct (map fst c2)" unfolding c2_def using dl by (simp add: drop_map[symmetric])
  have c2: "cache_set cfg s url v ps tt c = c2"
    unfolding c2_def live_def c1_def k_def item_def using cache_set_eq[OF dc] by (simp add: Let_def)
  have l2: "length c2 \<le> maxSize cfg" unfolding c2_def by simp
  have mo1: "map_of c1 k = Some item" unfolding c1_def by (rule map_of_map_set)
  have mol: "map_of live k = (if isExpired s item then None else Some item)"
    unfolding live_def by (simp add: map_of_filter_distinct[OF d1] mo1)
  have mo2: "map_of c2 k = (if effective_ttl cfg tt < 0 then None else Some item)"
  proof (cases "effective_ttl cfg tt < 0")
    case True
    then have "isExpired s item" by (simp add: isExpired_def item_def)
    then have "map_of live k = None" using mol by simp
    then have "k \<notin> fst ` set live" by (simp add: map_of_eq_None_iff)
    then have "k \<notin> fst ` set c2" unfolding c2_def using in_set_dropD by fastforce
    then show ?thesis using True by (simp add: map_of_eq_None_iff)
  next
    case False
    then have ne: "\<not> isExpired s item" by (simp add: isExpired_def item_def)
    have "c2 = live \<or> (\<exists>pre. live = pre @ [(k, item)] \<and> length live - maxSize cfg \<le> length pre)"
    proof (cases "map_has k c")
      case True
      then have "length c1 = length c" unfolding c1_def by (rule length_map_set_old)
      then have "length live \<le> maxSize cfg"
        unfolding live_def using lc length_filter_le[of _ c1] by (metis order_trans)
      then show ?thesis by (simp add: c2_def)
    next
      case nh: False
      then have "c1 = c @ [(k, item)]" unfolding c1_def by (rule map_set_new)
      then have lv: "live = filter (\<lambda>e. \<not> isExpired s (snd e)) c @ [(k, item)]"
        unfolding live_def using ne by simp
      have "length (filter (\<lambda>e. \<not> isExpired s (snd e)) c) \<le> maxSize cfg"
        using lc length_filter_le[of _ c] by (metis order_trans)
      then have "length live - maxSize cfg \<le> length (filter (\<lambda>e. \<not> isExpired s (snd e)) c)"
        using lv m1 by simp
      then show ?thesis using lv by blast
    qed
    then have "(k, item) \<in> set c2"
    proof
      assume "c2 = live"
      then show ?thesis using mol ne by (simp add: map_of_SomeD)
    next
      assume "\<exists>pre. live = pre @ [(k, item)] \<and> length live - maxSize cfg \<le> length pre"
      then obtain pre where p: "live = pre @ [(k, item)]" "length live - maxSize cfg \<le> length pre"
        by blast
      then show ?thesis unfolding c2_def by simp
    qed
    then have "map_of c2 k = Some item" using d2 by (simp add: map_of_is_SomeI)
    then show ?thesis using False by simp
  qed
  have cl: "cleanup cfg t c2 = filter (\<lambda>e. \<not> isExpired t (snd e)) c2"
  proof -
    have "length (filter (\<lambda>e. \<not> isExpired t (snd e)) c2) \<le> maxSize cfg"
      using l2 length_filter_le[of _ c2] by (metis order_trans)
    then show ?thesis by (simp add: cleanup_eq[OF d2] Let_def)
  qed
  have "map_get k (cleanup cfg t c2) =
          (if effective_ttl cfg tt < 0 \<or> isExpired t item then None else Some item)"
    by (simp add: map_get_def cl map_of_filter_distinct[OF d2] mo2)
  moreover have "isExpired t item \<longleftrightarrow> \<not> t - s \<le> effective_ttl cfg tt"
    by (auto simp: isExpired_def item_def)
  moreover have "effective_ttl cfg tt < 0 \<Longrightarrow> \<not> t - s \<le> effective_ttl cfg tt" using st by simp
  ultimately show ?thesis
    unfolding c2 cache_get_def k_def[symmetric] by (auto simp: Let_def item_def)
qed

lemma run_cache_snoc: "run_cache cfg (ops @ [x]) = apply_cache_op cfg x (run_cache cfg ops)"
  by (simp add: run_cache_def)

lemma apply_set_op:
  "apply_cache_op cfg (set_op r) c = cleanup cfg (fst r) (map_set (fst (entry_of cfg r)) (snd (entry_of cfg r)) c)"
  by (cases r) (simp add: set_op_def entry_of_def cache_set_def Let_def)

lemma inserts_keep_newest:
  fixes rs :: "'a set_request list"
  assumes "distinct (map (\<lambda>r. fst (entry_of cfg r)) rs)" and "stays_live cfg rs"
  shows "run_cache cfg (map set_op rs) = drop (length rs - maxSize cfg) (map (entry_of cfg) rs)"
  using assms
proof (induction rs rule: rev_induct)
  case Nil
  then show ?case by (simp add: run_cache_def)
next
  case (snoc r rs)
  let ?M = "maxSize cfg"
  let ?es = "map (entry_of cfg) rs"
  let ?c = "drop (length rs - ?M) ?es"
  have dist: "distinct (map (\<lambda>r. fst (entry_of cfg r)) rs)" using snoc.prems(1) by simp
  have live: "stays_live cfg rs" using snoc.prems(2) by (simp add: stays_live_def)
  have ih: "run_cache cfg (map set_op rs) = ?c" using snoc.IH[OF dist live] .
  have fresh: "fst (entry_of cfg r) \<notin> fst ` set ?es" using snoc.prems(1) by (auto simp: image_iff)
  then have "fst (entry_of cfg r) \<notin> fst ` set ?c" using in_set_dropD by fastforce
  then have nh: "\<not> map_has (fst (entry_of cfg r)) ?c" by (simp add: map_has_def)
  have ms: "map_set (fst (entry_of cfg r)) (snd (entry_of cfg r)) ?c = ?c @ [entry_of cfg r]"
    using map_set_new[OF nh] by simp
  have dc: "distinct (map fst (?c @ [entry_of cfg r]))"
  proof -
    have "distinct (map fst ?es)" using dist by (simp add: comp_def)
    then have "distinct (map fst ?c)" by (simp add: drop_map[symmetric])
    then show ?thesis using \<open>fst (entry_of cfg r) \<notin> fst ` set ?c\<close> by simp
  qed
  have all_live: "filter (\<lambda>e. \<not> isExpired (fst r) (snd e)) (?c @ [entry_of cfg r]) = ?c @ [entry_of cfg r]"
  proof -
    have "\<not> isExpired (fst r) (snd e)" if "e \<in> set (?es @ [entry_of cfg r])" for e
      using that snoc.prems(2) by (auto simp: stays_live_def)
    moreover have "set (?c @ [entry_of cfg r]) \<subseteq> set (?es @ [entry_of cfg r])"
      using set_drop_subset by fastforce
    ultimately have "\<not> isExpired (fst r) (snd e)" if "e \<in> set (?c @ [entry_of cfg r])" for e
      using that by blast
    then show ?thesis unfolding filter_id_conv by blast
  qed
  have "run_cache cfg (map set_op (rs @ [r])) = cleanup cfg (fst r) (?c @ [entry_of cfg r])"
    by (simp add: run_cache_snoc apply_set_op ih ms)
  also have "\<dots> = drop (length (?c @ [entry_of cfg r]) - ?M) (?c @ [entry_of cfg r])"
    using cleanup_eq[OF dc, of cfg "fst r"] unfolding Let_def all_live .
  also have "\<dots> = drop (length (rs @ [r]) - ?M) (map (entry_of cfg) (rs @ [r]))"
  proof (cases "length rs < ?M")
    case True
    then show ?thesis by simp
  next
    case False
    then have ge: "?M \<le> length rs" by simp
    show ?thesis
    proof (cases "?M = 0")
      case True
      then show ?thesis by simp
    next
      case False
      then have "Suc (length rs) - ?M = Suc (length rs - ?M)" using ge by simp
      moreover have "Suc (length rs - (length rs - ?M)) - ?M = 1" using ge by simp
      ultimately show ?thesis using ge False by (simp add: drop_Suc tl_drop drop_tl[symmetric])
    qed
  qed
  finally show ?case .
qed

lemma overflow_evicts_first:
  fixes rs :: "'a set_request list"
  assumes "distinct (map (\<lambda>r. fst (entry_of cfg r)) rs)" and "stays_live cfg rs"
    and "length rs = maxSize cfg + 1"
  shows "run_cache cfg (map set_op rs) = tl (map (entry_of cfg) rs)"
  using inserts_keep_newest[OF assms(1,2)] assms(3) by (simp add: drop_Suc)


subsection \<open>Cache keys\<close>

lemma same_pairs_same_order:
  assumes "distinct (map fst ps)" and "set ps = set qs" and "map fst ps = map fst qs"
  shows "ps = qs"
  using assms
proof (induction ps arbitrary: qs)
  case Nil
  then show ?case by simp
next
  case (Cons p ps)
  from Cons.prems(3) obtain q qs' where qs: "qs = q # qs'" and fq: "fst p = fst q"
    and ks: "map fst ps = map fst qs'"
    by (cases qs) auto
  have np: "fst p \<notin> fst ` set ps" using Cons.prems(1) by simp
  have nq: "fst q \<notin> fst ` set qs'" using np fq ks by (metis list.set_map)
  have "p \<in> set (q # qs')" using Cons.prems(2) qs by auto
  then have pq: "p = q" using nq fq by (auto simp: image_iff)
  have "set ps = set qs'"
  proof -
    have "p \<notin> set ps" using np by (auto simp: image_iff)
    moreover have "q \<notin> set qs'" using nq by (auto simp: image_iff)
    ultimately show ?thesis using Cons.prems(2) qs pq by auto
  qed
  then have "ps = qs'" using Cons.IH[of qs'] Cons.prems(1) ks by simp
  then show ?case using qs pq by simp
qed

text \<open>
  C2 (as amended): for every endpoint and every pair of params objects that hold the same
  key-value pairs with their keys in the same insertion order, \<open>generateKey\<close> gives the
  same cache key. The key is the url followed by \<open>JSON.stringify(params)\<close>, which writes
  the entries in the object's own order and does not sort them.
\<close>

theorem C2_generateKey_same_order:
  assumes "distinct (map fst ps)" and "set ps = set qs" and "map fst ps = map fst qs"
  shows "generateKey url (Some ps) = generateKey url (Some qs)"
  using same_pairs_same_order[OF assms] by simp

theorem C2_generateKey_same_order_witness:
  "generateKey ''/api/v1/search'' (Some [(''q'', JString ''invoice''), (''limit'', JNum 10)]) =
   generateKey ''/api/v1/search'' (Some [(''q'', JString ''invoice''), (''limit'', JNum 10)])
   \<and> distinct (map fst [(''q'', JString ''invoice''), (''limit'', JNum 10)])"
  using C2_generateKey_same_order[of "[(''q'', JString ''invoice''), (''limit'', JNum 10)]"
      "[(''q'', JString ''invoice''), (''limit'', JNum 10)]" "''/api/v1/search''"]
  by simp

text \<open>
  C2 as stated fails: two params objects with the same two pairs, inserted in opposite
  orders, get different keys, and a value stored under the one is not found under the other.
\<close>

theorem C2_generateKey_order_dependent:
  "set [(''q'', JString ''invoice''), (''limit'', JNum 10)] =
     set [(''limit'', JNum 10), (''q'', JString ''invoice'')]
   \<and> generateKey ''/api/v1/search'' (Some [(''q'', JString ''invoice''), (''limit'', JNum 10)])
     \<noteq> generateKey ''/api/v1/search'' (Some [(''limit'', JNum 10), (''q'', JString ''invoice'')])
   \<and> fst (cache_get \<lparr>defaultTTL = 300000, maxSize = 100\<rparr> 0 ''/api/v1/search''
          (Some [(''limit'', JNum 10), (''q'', JString ''invoice'')])
          (cache_set \<lparr>defaultTTL = 300000, maxSize = 100\<rparr> 0 ''/api/v1/search'' (JNum 1)
             (Some [(''q'', JString ''invoice''), (''limit'', JNum 10)]) None [])) = None"
  by (auto simp: generateKey_def json_quote_def json_escape_def string_of_int_def cache_get_def cache_set_def cleanup_def
        remove_expired_def enforce_size_def map_set_def map_has_def map_get_def map_delete_def
        isExpired_def effective_ttl_def Let_def)

subsection \<open>Time to live\<close>

text \<open>
  C5 (as amended): for every store reached from the empty one with a bound of at least
  one entry, after \<open>set\<close> at time \<open>s\<close> with time-to-live \<open>T\<close> (the default when
  \<open>T\<close> is omitted or zero), a \<open>get\<close> of the same key at a time \<open>t \<ge> s\<close> returns the
  stored value when \<open>t - s \<le> T\<close>, the boundary \<open>t - s = T\<close> included, and returns
  absent when \<open>t - s > T\<close>: \<open>isExpired\<close> compares with \<open>>\<close>.
\<close>

theorem C5_ttl_expiry:
  assumes "1 \<le> maxSize cfg" and "s \<le> t"
  shows "fst (cache_get cfg t url ps (cache_set cfg s url v ps T (run_cache cfg ops))) =
           (if t - s \<le> effective_ttl cfg T then Some v else None)"
  using set_then_get[OF distinct_run_cache length_run_cache assms] .

theorem C5_ttl_expiry_witness:
  "fst (cache_get \<lparr>defaultTTL = 300000, maxSize = 100\<rparr> 999 ''/api/v1/health'' None
          (cache_set \<lparr>defaultTTL = 300000, maxSize = 100\<rparr> 0 ''/api/v1/health'' (JNum 7) None (Some 1000)
             (run_cache \<lparr>defaultTTL = 300000, maxSize = 100\<rparr> []))) = Some (JNum 7)
   \<and> fst (cache_get \<lparr>defaultTTL = 300000, maxSize = 100\<rparr> 1001 ''/api/v1/health'' None
          (cache_set \<lparr>defaultTTL = 300000, maxSize = 100\<rparr> 0 ''/api/v1/health'' (JNum 7) None (Some 1000)
             (run_cache \<lparr>defaultTTL = 300000, maxSize = 100\<rparr> []))) = None"
  using C5_ttl_expiry[of "\<lparr>defaultTTL = 300000, maxSize = 100\<rparr>" 0 999 "''/api/v1/health''" None "JNum 7" "Some 1000" "[]"]
    C5_ttl_expiry[of "\<lparr>defaultTTL = 300000, maxSize = 100\<rparr>" 0 1001 "''/api/v1/health''" None "JNum 7" "Some 1000" "[]"]
  by (simp add: effective_ttl_def)

text \<open>
  C5 as stated fails at the boundary: an entry stored at time 0 with a time-to-live of
  1000 is still returned by a \<open>get\<close> at time 1000.
\<close>

theorem C5_boundary_still_readable:
  "fst (cache_get \<lparr>defaultTTL = 300000, maxSize = 100\<rparr> 1000 ''/api/v1/health'' None
          (cache_set \<lparr>defaultTTL = 300000, maxSize = 100\<rparr> 0 ''/api/v1/health'' (JNum 7) None (Some 1000) []))
     = Some (JNum 7)"
  using set_then_get[of "[]" "\<lparr>defaultTTL = 300000, maxSize = 100\<rparr>" 0 1000 "''/api/v1/health''" None "JNum 7" "Some 1000"]
  by (simp add: effective_ttl_def)

subsection \<open>Size bound and eviction order\<close>

text \<open>
  C9 (as amended): after every sequence of cache operations the store holds at most
  \<open>maxSize\<close> entries; a \<open>set\<close> leaves the unexpired entries in insertion order with
  the oldest ones cut off at the front, as many as exceed \<open>maxSize\<close>; and inserting
  \<open>maxSize + 1\<close> distinct keys, none of whose entries expires during the insertions,
  into the empty store leaves exactly the last \<open>maxSize\<close> of them, the first-inserted
  being the one evicted.
\<close>

theorem C9_size_bound_oldest_evicted:
  "length (run_cache cfg ops) \<le> maxSize cfg
   \<and> cache_set cfg now url d ps T (run_cache cfg ops) =
       (let live = filter (\<lambda>e. \<not> isExpired now (snd e))
                     (map_set (generateKey url ps)
                        \<lparr>data = d, timestamp = now, ttl = effective_ttl cfg T\<rparr> (run_cache cfg ops))
        in drop (length live - maxSize cfg) live)
   \<and> (distinct (map (\<lambda>r. fst (entry_of cfg r)) rs) \<and> stays_live cfg rs \<and> length rs = maxSize cfg + 1
        \<longrightarrow> run_cache cfg (map set_op rs) = tl (map (entry_of cfg) rs)
          \<and> length (run_cache cfg (map set_op rs)) = maxSize cfg)"
proof (intro conjI impI)
  show "length (run_cache cfg ops) \<le> maxSize cfg" by (rule length_run_cache)
  show "cache_set cfg now url d ps T (run_cache cfg ops) =
       (let live = filter (\<lambda>e. \<not> isExpired now (snd e))
                     (map_set (generateKey url ps)
                        \<lparr>data = d, timestamp = now, ttl = effective_ttl cfg T\<rparr> (run_cache cfg ops))
        in drop (length live - maxSize cfg) live)"
    by (rule cache_set_eq[OF distinct_run_cache])
next
  assume a: "distinct (map (\<lambda>r. fst (entry_of cfg r)) rs) \<and> stays_live cfg rs \<and> length rs = maxSize cfg + 1"
  then show e: "run_cache cfg (map set_op rs) = tl (map (entry_of cfg) rs)"
    using overflow_evicts_first[of cfg rs] by simp
  show "length (run_cache cfg (map set_op rs)) = maxSize cfg"
    unfolding e using a by simp
qed

theorem C9_size_bound_oldest_evicted_witness:
  "run_cache \<lparr>defaultTTL = 300000, maxSize = 2\<rparr>
     (map set_op [(0, ''/a'', JNum 1, None, None), (1, ''/b'', JNum 2, None, Some 5), (2, ''/c'', JNum 3, None, None)])
   = [(''/b:'', \<lparr>data = JNum 2, timestamp = 1, ttl = 5\<rparr>),
      (''/c:'', \<lparr>data = JNum 3, timestamp = 2, ttl = 300000\<rparr>)]"
  using C9_size_bound_oldest_evicted[of "\<lparr>defaultTTL = 300000, maxSize = 2\<rparr>" "[]" 0 "''/a''" "JNum 1" None None
      "[(0, ''/a'', JNum 1, None, None), (1, ''/b'', JNum 2, None, Some 5), (2, ''/c'', JNum 3, None, None)]"]
  by (simp add: stays_live_def entry_of_def isExpired_def effective_ttl_def generateKey_def)

text \<open>
  C9 as stated fails when an entry expires while the keys are inserted: \<open>cleanup\<close>
  removes expired entries before it looks at the size. With \<open>maxSize = 2\<close> and three
  distinct keys, a second entry that has expired by the third insertion is the one that
  goes and the first-inserted key stays; when the first two have expired, a single entry
  is left.
\<close>

theorem C9_expiry_changes_the_outcome:
  "length [(0, ''/a'', JNum 1, None, None), (1, ''/b'', JNum 2, None, Some 1), (5, ''/c'', JNum 3, None, None :: int option)]
     = maxSize \<lparr>defaultTTL = 300000, maxSize = 2\<rparr> + 1
   \<and> map fst (run_cache \<lparr>defaultTTL = 300000, maxSize = 2\<rparr>
        (map set_op [(0, ''/a'', JNum 1, None, None), (1, ''/b'', JNum 2, None, Some 1),
                     (5, ''/c'', JNum 3, None, None)])) = [''/a:'', ''/c:'']
   \<and> map fst (run_cache \<lparr>defaultTTL = 300000, maxSize = 2\<rparr>
        (map set_op [(0, ''/a'', JNum 1, None, Some 1), (5, ''/b'', JNum 2, None, Some 1),
                     (10, ''/c'', JNum 3, None, None)])) = [''/c:'']"
  by (simp add: run_cache_def set_op_def cache_set_def cleanup_def remove_expired_def enforce_size_def
        map_set_def map_has_def map_delete_def generateKey_def isExpired_def effective_ttl_def Let_def)

section \<open>Properties of the retry policy\<close>

declare retry_loop.simps [simp del]


lemma retry_loop_stops:
  assumes "a \<le> k" and "k \<le> maxAttempts rc"
    and "\<forall>j. a \<le> j \<and> j < k \<longrightarrow> (\<exists>e. operation j = Inl e \<and> isRetryableError e)"
    and "k = maxAttempts rc \<or> (\<exists>v. operation k = Inr v) \<or> (\<exists>e. operation k = Inl e \<and> \<not> isRetryableError e)"
  shows "retry_loop operation rc ctx rnd a n slept lastError =
     \<lparr>outcome = (case operation k of Inr v \<Rightarrow> Inr v | Inl e \<Rightarrow> Inl (Err (terminal_error e ctx k rc))),
      calls = n + nat (k - a) + 1,
      sleeps = slept @ map (\<lambda>j. calculateDelay j rc (rnd j)) [a..k - 1]\<rparr>"
  using assms
proof (induction "nat (k - a)" arbitrary: a n slept lastError)
  case 0
  then have ak: "a = k" by simp
  show ?case
    using "0.prems"(2,4) unfolding ak
    by (subst retry_loop.simps) (auto split: sum.splits)
next
  case (Suc m)
  then have lt: "a < k" by linarith
  from Suc.prems(3) lt obtain e where e: "operation a = Inl e" "isRetryableError e" by blast
  have ne: "a \<noteq> maxAttempts rc" "a \<le> maxAttempts rc" using lt Suc.prems(2) by simp_all
  have m: "m = nat (k - (a + 1))" using Suc.hyps(2) by linarith
  have ih: "retry_loop operation rc ctx rnd (a + 1) (Suc n) (slept @ [calculateDelay a rc (rnd a)]) (Some e) =
     \<lparr>outcome = (case operation k of Inr v \<Rightarrow> Inr v | Inl e \<Rightarrow> Inl (Err (terminal_error e ctx k rc))),
      calls = Suc n + nat (k - (a + 1)) + 1,
      sleeps = (slept @ [calculateDelay a rc (rnd a)]) @ map (\<lambda>j. calculateDelay j rc (rnd j)) [a + 1..k - 1]\<rparr>"
    using Suc.hyps(1)[OF m] lt Suc.prems(2,3,4) by simp
  have up: "[a..k - 1] = a # [a + 1..k - 1]" using lt by (simp add: upto_rec1)
  have c: "Suc (nat (k - (a + 1))) = nat (k - a)" using lt by linarith
  show ?case
    by (subst retry_loop.simps) (simp add: e ne ih up c)
qed

lemma retry_loop_stop_exists:
  assumes "a \<le> maxAttempts rc"
  shows "\<exists>k. a \<le> k \<and> k \<le> maxAttempts rc
           \<and> (\<forall>j. a \<le> j \<and> j < k \<longrightarrow> (\<exists>e. operation j = Inl e \<and> isRetryableError e))
           \<and> (k = maxAttempts rc \<or> (\<exists>v. operation k = Inr v) \<or> (\<exists>e. operation k = Inl e \<and> \<not> isRetryableError e))"
  using assms
proof (induction "nat (maxAttempts rc - a)" arbitrary: a)
  case 0
  then have "a = maxAttempts rc" by simp
  then show ?case by auto
next
  case (Suc m)
  show ?case
  proof (cases "\<exists>e. operation a = Inl e \<and> isRetryableError e")
    case False
    then have "(\<exists>v. operation a = Inr v) \<or> (\<exists>e. operation a = Inl e \<and> \<not> isRetryableError e)"
      by (cases "operation a") auto
    then show ?thesis using Suc.prems by (intro exI[of _ a]) auto
  next
    case True
    have "m = nat (maxAttempts rc - (a + 1))" "a + 1 \<le> maxAttempts rc" using Suc.hyps(2) by linarith+
    from Suc.hyps(1)[OF this] obtain k where k: "a + 1 \<le> k" "k \<le> maxAttempts rc"
      "\<forall>j. a + 1 \<le> j \<and> j < k \<longrightarrow> (\<exists>e. operation j = Inl e \<and> isRetryableError e)"
      "k = maxAttempts rc \<or> (\<exists>v. operation k = Inr v) \<or> (\<exists>e. operation k = Inl e \<and> \<not> isRetryableError e)"
      by blast
    have "\<forall>j. a \<le> j \<and> j < k \<longrightarrow> (\<exists>e. operation j = Inl e \<and> isRetryableError e)"
    proof (intro allI impI)
      fix j assume "a \<le> j \<and> j < k"
      then have "j = a \<or> (a + 1 \<le> j \<and> j < k)" by linarith
      then show "\<exists>e. operation j = Inl e \<and> isRetryableError e" using True k(3) by blast
    qed
    then show ?thesis using k(1,2,4) by (intro exI[of _ k]) auto
  qed
qed

lemma calculateDelay_mono:
  assumes "\<not> jitter rc" and "0 \<le> baseDelay rc" and "1 \<le> exponentialBase rc" and "a \<le> b"
  shows "calculateDelay a rc x \<le> calculateDelay b rc y"
proof -
  have "exponentialBase rc powi (a - 1) \<le> exponentialBase rc powi (b - 1)"
    using assms(3,4) by (intro power_int_increasing) auto
  then have "baseDelay rc * exponentialBase rc powi (a - 1) \<le> baseDelay rc * exponentialBase rc powi (b - 1)"
    using assms(2) by (rule mult_left_mono)
  then show ?thesis using assms(1) by (simp add: calculateDelay_def Let_def min_le_iff_disj)
qed

lemma sorted_map_upto:
  fixes f :: "int \<Rightarrow> real"
  assumes "\<And>i j. i \<le> j \<Longrightarrow> f i \<le> f j"
  shows "sorted (map f [a..b])"
proof -
  have "sorted_wrt (\<lambda>i j. f i \<le> f j) [a..b]"
    by (rule sorted_wrt_mono_rel[of _ "(\<le>)"]) (use assms in auto)
  then show ?thesis by (simp add: sorted_wrt_map)
qed

lemma retryConfig_of_all_fields [simp]: "retryConfig_of (all_fields c) = c"
  by (simp add: retryConfig_of_def all_fields_def)

lemma withRetry_shape:
  assumes "1 \<le> maxAttempts (retryConfig_of config)"
  shows "\<exists>k. 1 \<le> k \<and> k \<le> maxAttempts (retryConfig_of config)
     \<and> (\<forall>j. 1 \<le> j \<and> j < k \<longrightarrow> (\<exists>e. operation j = Inl e \<and> isRetryableError e))
     \<and> (k = maxAttempts (retryConfig_of config) \<or> (\<exists>v. operation k = Inr v)
          \<or> (\<exists>e. operation k = Inl e \<and> \<not> isRetryableError e))
     \<and> withRetry operation config ctx rnd =
         \<lparr>outcome = (case operation k of Inr v \<Rightarrow> Inr v
                       | Inl e \<Rightarrow> Inl (Err (terminal_error e ctx k (retryConfig_of config)))),
          calls = nat k,
          sleeps = map (\<lambda>j. calculateDelay j (retryConfig_of config) (rnd j)) [1..k - 1]\<rparr>"
proof -
  from retry_loop_stop_exists[OF assms, of operation] obtain k where k:
    "1 \<le> k" "k \<le> maxAttempts (retryConfig_of config)"
    "\<forall>j. 1 \<le> j \<and> j < k \<longrightarrow> (\<exists>e. operation j = Inl e \<and> isRetryableError e)"
    "k = maxAttempts (retryConfig_of config) \<or> (\<exists>v. operation k = Inr v)
       \<or> (\<exists>e. operation k = Inl e \<and> \<not> isRetryableError e)"
    by blast
  have n: "0 + nat (k - 1) + 1 = nat k" using k(1) by linarith
  show ?thesis
    using k retry_loop_stops[OF k, of ctx rnd 0 "[]" None] unfolding withRetry_def n
    by (intro exI[of _ k]) simp
qed

lemma withRetry_no_attempt:
  assumes "maxAttempts (retryConfig_of config) < 1"
  shows "withRetry operation config ctx rnd = \<lparr>outcome = Inl Undefined, calls = 0, sleeps = []\<rparr>"
  using assms unfolding withRetry_def by (subst retry_loop.simps) simp

lemma withRetry_sleeps:
  "sleeps (withRetry operation config ctx rnd) =
     map (\<lambda>j. calculateDelay j (retryConfig_of config) (rnd j))
       [1..int (calls (withRetry operation config ctx rnd)) - 1]"
proof (cases "1 \<le> maxAttempts (retryConfig_of config)")
  case True
  from withRetry_shape[OF True, of operation ctx rnd] obtain k where
    "1 \<le> k" and "withRetry operation config ctx rnd =
         \<lparr>outcome = (case operation k of Inr v \<Rightarrow> Inr v
                       | Inl e \<Rightarrow> Inl (Err (terminal_error e ctx k (retryConfig_of config)))),
          calls = nat k,
          sleeps = map (\<lambda>j. calculateDelay j (retryConfig_of config) (rnd j)) [1..k - 1]\<rparr>"
    by blast
  then show ?thesis by simp
next
  case False
  then show ?thesis by (simp add: withRetry_no_attempt)
qed

lemma withRetry_first_not_retryable:
  assumes "1 \<le> maxAttempts (retryConfig_of config)" and "operation 1 = Inl e" and "\<not> isRetryableError e"
  shows "withRetry operation config ctx rnd =
     \<lparr>outcome = Inl (Err (terminal_error e ctx 1 (retryConfig_of config))), calls = 1, sleeps = []\<rparr>"
proof -
  have "\<forall>j. (1::int) \<le> j \<and> j < 1 \<longrightarrow> (\<exists>e. operation j = Inl e \<and> isRetryableError e)" by auto
  then show ?thesis
    using retry_loop_stops[of 1 1 "retryConfig_of config" operation ctx rnd 0 "[]" None] assms
    by (simp add: withRetry_def)
qed

lemma withRetry_fails_at_last:
  assumes "1 \<le> maxAttempts (retryConfig_of config)"
    and "\<forall>a e. operation a = Inl e \<longrightarrow> isRetryableError e"
    and "isl (outcome (withRetry operation config ctx rnd))"
  shows "int (calls (withRetry operation config ctx rnd)) = maxAttempts (retryConfig_of config)"
proof -
  from withRetry_shape[OF assms(1), of operation ctx rnd] obtain k where k:
    "1 \<le> k"
    "k = maxAttempts (retryConfig_of config) \<or> (\<exists>v. operation k = Inr v)
       \<or> (\<exists>e. operation k = Inl e \<and> \<not> isRetryableError e)"
    "withRetry operation config ctx rnd =
         \<lparr>outcome = (case operation k of Inr v \<Rightarrow> Inr v
                       | Inl e \<Rightarrow> Inl (Err (terminal_error e ctx k (retryConfig_of config)))),
          calls = nat k,
          sleeps = map (\<lambda>j. calculateDelay j (retryConfig_of config) (rnd j)) [1..k - 1]\<rparr>"
    by blast
  have "\<not> (\<exists>v. operation k = Inr v)" using assms(3) unfolding k(3) by auto
  moreover have "\<not> (\<exists>e. operation k = Inl e \<and> \<not> isRetryableError e)" using assms(2) by blast
  ultimately have "k = maxAttempts (retryConfig_of config)" using k(2) by blast
  then show ?thesis using k(1) unfolding k(3) by simp
qed

lemma withRetry_all_fail:
  assumes "1 \<le> maxAttempts (retryConfig_of config)"
    and "\<forall>a. \<exists>e. operation a = Inl e \<and> isRetryableError e"
  shows "isl (outcome (withRetry operation config ctx rnd))"
proof -
  from withRetry_shape[OF assms(1), of operation ctx rnd] obtain k where k:
    "withRetry operation config ctx rnd =
         \<lparr>outcome = (case operation k of Inr v \<Rightarrow> Inr v
                       | Inl e \<Rightarrow> Inl (Err (terminal_error e ctx k (retryConfig_of config)))),
          calls = nat k,
          sleeps = map (\<lambda>j. calculateDelay j (retryConfig_of config) (rnd j)) [1..k - 1]\<rparr>"
    by blast
  from assms(2) obtain e where "operation k = Inl e" by blast
  then show ?thesis unfolding k by simp
qed

lemma withRetry_sleeps_sorted:
  assumes "\<not> jitter (retryConfig_of config)" and "0 \<le> baseDelay (retryConfig_of config)"
    and "1 \<le> exponentialBase (retryConfig_of config)"
  shows "sorted (sleeps (withRetry operation config ctx rnd))"
proof -
  have "calculateDelay j (retryConfig_of config) (rnd j) = calculateDelay j (retryConfig_of config) 0" for j
    using assms(1) by (simp add: calculateDelay_def)
  then have "sleeps (withRetry operation config ctx rnd) =
     map (\<lambda>j. calculateDelay j (retryConfig_of config) 0)
       [1..int (calls (withRetry operation config ctx rnd)) - 1]"
    using withRetry_sleeps[of operation config ctx rnd] by simp
  moreover have "sorted (map (\<lambda>j. calculateDelay j (retryConfig_of config) 0) [a..b])" for a b
    by (rule sorted_map_upto) (rule calculateDelay_mono[OF assms])
  ultimately show ?thesis by simp
qed

text \<open>
  C7 (as amended): for every operation run under \<open>withRetry\<close>, a first failure that is
  classified non-retryable ends the run after exactly one call; with \<open>maxAttempts = 3\<close>
  an operation whose failures are all retryable fails only after exactly three calls (and
  does fail then when every call fails); with jitter disabled the delays slept are
  \<open>min(baseDelay * exponentialBase^(attempt-1), maxDelay)\<close> for the attempts made, and
  they are non-decreasing when \<open>baseDelay \<ge> 0\<close> and \<open>exponentialBase \<ge> 1\<close>.
\<close>

theorem C7_retry_attempts_and_delays:
  fixes operation :: "int \<Rightarrow> js_error + 'a"
  shows
  "(1 \<le> maxAttempts (retryConfig_of config) \<and> operation 1 = Inl e \<and> \<not> isRetryableError e \<longrightarrow>
      withRetry operation config ctx rnd =
        \<lparr>outcome = Inl (Err (terminal_error e ctx 1 (retryConfig_of config))), calls = 1, sleeps = []\<rparr>)
   \<and> (maxAttempts (retryConfig_of config) = 3 \<and> (\<forall>a e'. operation a = Inl e' \<longrightarrow> isRetryableError e')
        \<and> isl (outcome (withRetry operation config ctx rnd)) \<longrightarrow>
      calls (withRetry operation config ctx rnd) = 3)
   \<and> (maxAttempts (retryConfig_of config) = 3 \<and> (\<forall>a. \<exists>e'. operation a = Inl e' \<and> isRetryableError e') \<longrightarrow>
      isl (outcome (withRetry operation config ctx rnd)) \<and> calls (withRetry operation config ctx rnd) = 3)
   \<and> (\<not> jitter (retryConfig_of config) \<longrightarrow>
      sleeps (withRetry operation config ctx rnd) =
        map (\<lambda>attempt. min (baseDelay (retryConfig_of config)
                               * exponentialBase (retryConfig_of config) powi (attempt - 1))
                            (maxDelay (retryConfig_of config)))
          [1..int (calls (withRetry operation config ctx rnd)) - 1])
   \<and> (\<not> jitter (retryConfig_of config) \<and> 0 \<le> baseDelay (retryConfig_of config)
        \<and> 1 \<le> exponentialBase (retryConfig_of config) \<longrightarrow>
      sorted (sleeps (withRetry operation config ctx rnd)))"
proof (intro conjI impI)
  assume "1 \<le> maxAttempts (retryConfig_of config) \<and> operation 1 = Inl e \<and> \<not> isRetryableError e"
  then show "withRetry operation config ctx rnd =
        \<lparr>outcome = Inl (Err (terminal_error e ctx 1 (retryConfig_of config))), calls = 1, sleeps = []\<rparr>"
    using withRetry_first_not_retryable by blast
next
  assume a: "maxAttempts (retryConfig_of config) = 3 \<and> (\<forall>a e'. operation a = Inl e' \<longrightarrow> isRetryableError e')
        \<and> isl (outcome (withRetry operation config ctx rnd))"
  then have "int (calls (withRetry operation config ctx rnd)) = maxAttempts (retryConfig_of config)"
    by (intro withRetry_fails_at_last) auto
  then show "calls (withRetry operation config ctx rnd) = 3" using a by simp
next
  assume a: "maxAttempts (retryConfig_of config) = 3 \<and> (\<forall>a. \<exists>e'. operation a = Inl e' \<and> isRetryableError e')"
  then have f: "isl (outcome (withRetry operation config ctx rnd))"
    by (intro withRetry_all_fail) auto
  have "\<forall>a e'. operation a = Inl e' \<longrightarrow> isRetryableError e'"
    using a by (metis Inl_inject)
  then have "int (calls (withRetry operation config ctx rnd)) = maxAttempts (retryConfig_of config)"
    using a f by (intro withRetry_fails_at_last) auto
  then show "isl (outcome (withRetry operation config ctx rnd))"
    and "calls (withRetry operation config ctx rnd) = 3" using a f by simp_all
next
  assume "\<not> jitter (retryConfig_of config)"
  then have "calculateDelay j (retryConfig_of config) (rnd j) =
      min (baseDelay (retryConfig_of config) * exponentialBase (retryConfig_of config) powi (j - 1))
          (maxDelay (retryConfig_of config))" for j
    by (simp add: calculateDelay_def)
  then show "sleeps (withRetry operation config ctx rnd) =
        map (\<lambda>attempt. min (baseDelay (retryConfig_of config)
                               * exponentialBase (retryConfig_of config) powi (attempt - 1))
                            (maxDelay (retryConfig_of config)))
          [1..int (calls (withRetry operation config ctx rnd)) - 1]"
    using withRetry_sleeps[of operation config ctx rnd] by simp
next
  assume "\<not> jitter (retryConfig_of config) \<and> 0 \<le> baseDelay (retryConfig_of config)
        \<and> 1 \<le> exponentialBase (retryConfig_of config)"
  then show "sorted (sleeps (withRetry operation config ctx rnd))"
    using withRetry_sleeps_sorted by blast
qed

lemma isRetryable_examples [simp]:
  "\<not> isRetryableError not_found_failure" "isRetryableError unavailable_failure"
  by (simp_all add: isRetryableError_def not_found_failure_def unavailable_failure_def
        transport_error_def retryableStatuses_def)

text \<open>The standard profile without jitter: a 404 ends after one call, a 503 after three.\<close>

theorem C7_retry_attempts_and_delays_witness:
  "calls (withRetry (\<lambda>a. Inl not_found_failure :: js_error + json)
            (all_fields (RETRY_standard\<lparr>jitter := False\<rparr>)) empty_context (\<lambda>a. 0)) = 1
   \<and> calls (withRetry (\<lambda>a. Inl unavailable_failure :: js_error + json)
            (all_fields (RETRY_standard\<lparr>jitter := False\<rparr>)) empty_context (\<lambda>a. 0)) = 3
   \<and> sleeps (withRetry (\<lambda>a. Inl unavailable_failure :: js_error + json)
            (all_fields (RETRY_standard\<lparr>jitter := False\<rparr>)) empty_context (\<lambda>a. 0)) = [1000, 2000]
   \<and> sorted (sleeps (withRetry (\<lambda>a. Inl unavailable_failure :: js_error + json)
            (all_fields (RETRY_standard\<lparr>jitter := False\<rparr>)) empty_context (\<lambda>a. 0)))"
  using C7_retry_attempts_and_delays[of "all_fields (RETRY_standard\<lparr>jitter := False\<rparr>)"
          "\<lambda>a. Inl not_found_failure :: js_error + json" not_found_failure empty_context "\<lambda>a. 0"]
        C7_retry_attempts_and_delays[of "all_fields (RETRY_standard\<lparr>jitter := False\<rparr>)"
          "\<lambda>a. Inl unavailable_failure :: js_error + json" unavailable_failure empty_context "\<lambda>a. 0"]
  by (simp add: RETRY_standard_def upto_rec1)

text \<open>
  C7 as stated fails for a configuration with \<open>exponentialBase = 1/2\<close> and jitter
  disabled: the delays slept are 1000 and then 500.
\<close>

theorem C7_delays_decrease_for_small_base:
  "\<not> jitter (retryConfig_of \<lparr>opt_maxAttempts = Some 3, opt_baseDelay = Some 1000, opt_maxDelay = Some 10000,
                              opt_exponentialBase = Some (1 / 2), opt_jitter = Some False\<rparr>)
   \<and> sleeps (withRetry (\<lambda>a. Inl unavailable_failure :: js_error + json)
        \<lparr>opt_maxAttempts = Some 3, opt_baseDelay = Some 1000, opt_maxDelay = Some 10000,
         opt_exponentialBase = Some (1 / 2), opt_jitter = Some False\<rparr> empty_context (\<lambda>a. 0)) = [1000, 500]"
proof -
  let ?c = "\<lparr>opt_maxAttempts = Some 3, opt_baseDelay = Some 1000, opt_maxDelay = Some 10000,
         opt_exponentialBase = Some (1 / 2), opt_jitter = Some False\<rparr>"
  have rc: "retryConfig_of ?c = \<lparr>maxAttempts = 3, baseDelay = 1000, maxDelay = 10000,
       exponentialBase = 1 / 2, jitter = False\<rparr>"
    by (simp add: retryConfig_of_def)
  have "int (calls (withRetry (\<lambda>a. Inl unavailable_failure :: js_error + json) ?c empty_context (\<lambda>a. 0))) = 3"
    using withRetry_fails_at_last[of ?c "\<lambda>a. Inl unavailable_failure :: js_error + json" empty_context "\<lambda>a. 0"]
      withRetry_all_fail[of ?c "\<lambda>a. Inl unavailable_failure :: js_error + json" empty_context "\<lambda>a. 0"]
    by (simp add: rc)
  then show ?thesis
    using withRetry_sleeps[of "\<lambda>a. Inl unavailable_failure :: js_error + json" ?c empty_context "\<lambda>a. 0"]
    by (simp add: rc upto_rec1 calculateDelay_def)
qed

section \<open>Properties of the caching client\<close>

subsection \<open>Background refresh\<close>

lemma client_inv_initial: "client_inv initial_client"
  by (simp add: client_inv_def initial_client_def)

lemma client_inv_apiCache [simp]: "client_inv (st\<lparr>apiCache := c\<rparr>) = client_inv st"
  by (simp add: client_inv_def)

lemma client_inv_refresh:
  assumes "client_inv st"
  shows "client_inv (refreshInBackground url ps ttl_opt ck st)"
proof (cases "map_has (key_or_url ck url) (backgroundRefreshPromises st)")
  case True
  then show ?thesis using assms by (simp add: refreshInBackground_def)
next
  case False
  let ?k = "key_or_url ck url"
  let ?r = "(next_promise st, \<lparr>rf_key = ?k, rf_url = url, rf_params = ps, rf_cacheTTL = ttl_opt\<rparr>)"
  have i1: "backgroundRefreshPromises st = map (\<lambda>r. (rf_key (snd r), fst r)) (in_flight st)"
    and i2: "distinct (map fst (backgroundRefreshPromises st))"
    and i3: "distinct (map fst (in_flight st))"
    and i4: "\<forall>r \<in> set (in_flight st). fst r < next_promise st"
    using assms unfolding client_inv_def by blast+
  have eq: "refreshInBackground url ps ttl_opt ck st =
      st\<lparr>in_flight := in_flight st @ [?r],
         backgroundRefreshPromises := backgroundRefreshPromises st @ [(?k, next_promise st)],
         next_promise := Suc (next_promise st)\<rparr>"
    using False by (simp add: refreshInBackground_def Let_def map_set_def)
  have k: "?k \<notin> set (map fst (backgroundRefreshPromises st))"
    using False by (simp add: map_has_def)
  have p: "next_promise st \<notin> set (map fst (in_flight st))"
    using i4 by auto
  have c1: "backgroundRefreshPromises st @ [(?k, next_promise st)] =
      map (\<lambda>r. (rf_key (snd r), fst r)) (in_flight st @ [?r])"
    using i1 by simp
  have c2: "distinct (map fst (backgroundRefreshPromises st @ [(?k, next_promise st)]))"
    using i2 k by simp
  have c3: "distinct (map fst (in_flight st @ [?r]))"
    using i3 p by simp
  have c4: "\<forall>r \<in> set (in_flight st @ [?r]). fst r < Suc (next_promise st)"
    using i4 by (auto simp: less_Suc_eq)
  show ?thesis
    unfolding eq client_inv_def using c1 c2 c3 c4 by simp
qed

lemma distinct_in_flight_keys:
  assumes "client_inv st"
  shows "distinct (map (\<lambda>r. rf_key (snd r)) (in_flight st))"
proof -
  have "map fst (backgroundRefreshPromises st) = map (\<lambda>r. rf_key (snd r)) (in_flight st)"
    using assms by (simp add: client_inv_def comp_def)
  then show ?thesis using assms by (simp add: client_inv_def)
qed

lemma in_flight_unique_key:
  assumes "client_inv st" and "r \<in> set (in_flight st)" and "r' \<in> set (in_flight st)"
    and "rf_key (snd r) = rf_key (snd r')"
  shows "r = r'"
proof -
  have "distinct (map (\<lambda>r. rf_key (snd r)) (in_flight st))"
    using assms(1) by (rule distinct_in_flight_keys)
  then have "inj_on (\<lambda>r. rf_key (snd r)) (set (in_flight st))" by (simp add: distinct_map)
  then show ?thesis using assms(2,3,4) by (auto dest: inj_onD)
qed

lemma in_flight_unique_promise:
  assumes "client_inv st" and "r \<in> set (in_flight st)" and "r' \<in> set (in_flight st)"
    and "fst r = fst r'"
  shows "r = r'"
proof -
  have "inj_on fst (set (in_flight st))" using assms(1) by (simp add: client_inv_def distinct_map)
  then show ?thesis using assms(2,3,4) by (auto dest: inj_onD)
qed

lemma settle_in_flight:
  "in_flight (settle_refresh now p res st) = filter (\<lambda>r. fst r \<noteq> p) (in_flight st)"
proof (cases "map_of (in_flight st) p")
  case None
  then have "p \<notin> fst ` set (in_flight st)" by (simp add: map_of_eq_None_iff)
  then have "filter (\<lambda>r. fst r \<noteq> p) (in_flight st) = in_flight st"
    by (auto simp: filter_id_conv)
  then show ?thesis using None by (simp add: settle_refresh_def)
next
  case (Some rf)
  then show ?thesis by (cases res) (simp_all add: settle_refresh_def Let_def)
qed

lemma client_inv_settle:
  assumes "client_inv st"
  shows "client_inv (settle_refresh now p res st)"
proof (cases "map_of (in_flight st) p")
  case None
  then show ?thesis using assms by (simp add: settle_refresh_def)
next
  case (Some rf)
  then have mem: "(p, rf) \<in> set (in_flight st)" by (rule map_of_SomeD)
  have same: "rf_key (snd r) \<noteq> rf_key rf \<longleftrightarrow> fst r \<noteq> p" if "r \<in> set (in_flight st)" for r
    using in_flight_unique_key[OF assms that mem] in_flight_unique_promise[OF assms that mem]
    by (cases r) auto
  have bg: "map_delete (rf_key rf) (backgroundRefreshPromises st) =
      map (\<lambda>r. (rf_key (snd r), fst r)) (filter (\<lambda>r. fst r \<noteq> p) (in_flight st))"
  proof -
    have "backgroundRefreshPromises st = map (\<lambda>r. (rf_key (snd r), fst r)) (in_flight st)"
      using assms unfolding client_inv_def by blast
    then have "map_delete (rf_key rf) (backgroundRefreshPromises st) =
        map (\<lambda>r. (rf_key (snd r), fst r)) (filter (\<lambda>r. rf_key (snd r) \<noteq> rf_key rf) (in_flight st))"
      by (simp add: map_delete_def filter_map comp_def)
    also have "filter (\<lambda>r. rf_key (snd r) \<noteq> rf_key rf) (in_flight st) = filter (\<lambda>r. fst r \<noteq> p) (in_flight st)"
      using same by (intro filter_cong) auto
    finally show ?thesis .
  qed
  have "distinct (map fst (in_flight st))"
    using assms unfolding client_inv_def by blast
  then have d1: "distinct (map fst (filter (\<lambda>r. fst r \<noteq> p) (in_flight st)))"
    by (simp add: distinct_map_filter)
  have "distinct (map fst (backgroundRefreshPromises st))"
    using assms unfolding client_inv_def by blast
  then have d2: "distinct (map fst (map_delete (rf_key rf) (backgroundRefreshPromises st)))"
    by (simp add: map_delete_def distinct_map_filter)
  have "\<forall>r \<in> set (in_flight st). fst r < next_promise st"
    using assms unfolding client_inv_def by blast
  then have lt: "\<forall>r \<in> set (filter (\<lambda>r. fst r \<noteq> p) (in_flight st)). fst r < next_promise st"
    by simp
  show ?thesis
    using Some bg d1 d2 lt
    by (cases res) (simp_all add: settle_refresh_def Let_def client_inv_def)
qed

lemma client_inv_get:
  assumes "client_inv st"
  shows "client_inv (snd (client_get now done url config transport rnd st))"
  using assms
  by (auto simp: client_get_def Let_def client_inv_refresh split: option.splits sum.splits)

lemma client_inv_step: "client_inv st \<Longrightarrow> client_inv (client_step ev st)"
  by (cases ev) (simp_all add: client_inv_get client_inv_refresh client_inv_settle)

lemma client_inv_run: "client_inv (run_client evs)"
proof -
  have "client_inv st \<Longrightarrow> client_inv (fold client_step evs st)" for st
    by (induction evs arbitrary: st) (simp_all add: client_inv_step)
  then show ?thesis by (simp add: run_client_def client_inv_initial)
qed

lemma refreshes_for_le_one:
  assumes "client_inv st"
  shows "length (refreshes_for key st) \<le> 1"
proof -
  have "distinct (map (\<lambda>r. rf_key (snd r)) (in_flight st))"
    using assms by (rule distinct_in_flight_keys)
  then have "length (filter (\<lambda>r. rf_key (snd r) = key) xs) \<le> 1"
    if "distinct (map (\<lambda>r. rf_key (snd r)) xs)" for xs :: "(nat \<times> refresh) list"
    using that
  proof (induction xs)
    case Nil
    then show ?case by simp
  next
    case (Cons x xs)
    then show ?case by (auto simp: filter_empty_conv image_iff)
  qed
  then show ?thesis
    using \<open>distinct (map (\<lambda>r. rf_key (snd r)) (in_flight st))\<close> by (simp add: refreshes_for_def)
qed

lemma busy_iff_has:
  assumes "client_inv st"
  shows "refreshes_for key st \<noteq> [] \<longleftrightarrow> map_has key (backgroundRefreshPromises st)"
  using assms by (auto simp: client_inv_def refreshes_for_def map_has_def filter_empty_conv image_iff)

lemma refresh_when_busy:
  assumes "client_inv st" and "refreshes_for (key_or_url ck url) st \<noteq> []"
  shows "refreshInBackground url ps ttl_opt ck st = st"
  using assms busy_iff_has[OF assms(1)] by (simp add: refreshInBackground_def)

lemma refresh_when_idle:
  assumes "client_inv st" and "refreshes_for (key_or_url ck url) st = []"
  shows "refreshes_for (key_or_url ck url) (refreshInBackground url ps ttl_opt ck st) =
           [(next_promise st, \<lparr>rf_key = key_or_url ck url, rf_url = url, rf_params = ps, rf_cacheTTL = ttl_opt\<rparr>)]"
  using assms busy_iff_has[OF assms(1), of "key_or_url ck url"]
  by (simp add: refreshInBackground_def Let_def refreshes_for_def)

lemma settle_frees_key:
  assumes "client_inv st" and "(p, rf) \<in> set (in_flight st)"
  shows "refreshes_for (rf_key rf) (settle_refresh now p res st) = []"
proof -
  have "fst r = p" if "r \<in> set (in_flight st)" "rf_key (snd r) = rf_key rf" for r
    using in_flight_unique_key[OF assms(1) that(1) assms(2)] that(2) by auto
  then show ?thesis
    by (auto simp: refreshes_for_def settle_in_flight filter_empty_conv)
qed

lemma in_flight_get_mono:
  "r \<in> set (in_flight st) \<Longrightarrow> r \<in> set (in_flight (snd (client_get now done url config transport rnd st)))"
  by (auto simp: client_get_def Let_def refreshInBackground_def split: option.splits sum.splits)

lemma stays_in_flight:
  assumes "(p, rf) \<in> set (in_flight st)" and "\<forall>now res. ev \<noteq> Settle now p res"
  shows "(p, rf) \<in> set (in_flight (client_step ev st))"
proof (cases ev)
  case (CallGet now fin url config transport rnd)
  then show ?thesis using assms(1) by (simp add: in_flight_get_mono)
next
  case (CallRefresh url ps ttl_opt ck)
  then show ?thesis using assms(1) by (simp add: refreshInBackground_def Let_def)
next
  case (Settle now q res)
  then have "q \<noteq> p" using assms(2) by auto
  then show ?thesis using assms(1) Settle by (simp add: settle_in_flight)
qed

lemma friendly_not_empty: "getUserFriendlyErrorMessage e \<noteq> Text []"
  by (auto simp: getUserFriendlyErrorMessage_def msg_or_def Let_def split: option.splits)

lemma handleApiError_message [simp]: "message (handleApiError e ctx) = getUserFriendlyErrorMessage e"
  by (simp add: handleApiError_def NetworkError_def RetryableError_def Let_def)

lemma requestOperation_Inl:
  "requestOperation url transport a = Inl e' \<Longrightarrow>
     \<exists>e0. transport a = Inl e0 \<and> e' = handleApiError e0 (get_context url)"
  by (auto simp: requestOperation_def split: sum.splits)

lemma maxAttempts_profile: "1 \<le> maxAttempts (RETRY_CONFIGS p)"
  by (cases p) (simp_all add: RETRY_quick_def RETRY_standard_def RETRY_heavy_def)

lemma fresh_request_failure:
  assumes "outcome (fresh_request url retry transport rnd) = Inl t"
  shows "\<exists>e0. transport (int (calls (fresh_request url retry transport rnd))) = Inl e0
           \<and> 1 \<le> calls (fresh_request url retry transport rnd)
           \<and> (case retry of
                 NoRetry \<Rightarrow> t = Err (handleApiError e0 (get_context url))
               | Profile p \<Rightarrow>
                   int (calls (fresh_request url retry transport rnd)) \<le> maxAttempts (RETRY_CONFIGS p)
                   \<and> (\<exists>e. t = Err e
                        \<and> message e = getUserFriendlyErrorMessage e0
                        \<and> err_context e = (get_context url)
                             \<lparr>ctx_attempt := Some (int (calls (fresh_request url retry transport rnd))),
                              ctx_maxAttempts := Some (maxAttempts (RETRY_CONFIGS p))\<rparr>
                        \<and> \<not> isRetryable e))"
proof (cases retry)
  case NoRetry
  then show ?thesis
    using assms by (auto simp: fresh_request_def split: sum.splits dest: requestOperation_Inl)
next
  case (Profile p)
  let ?rc = "RETRY_CONFIGS p"
  let ?op = "requestOperation url transport"
  have fr: "fresh_request url retry transport rnd = withRetry ?op (all_fields ?rc) (get_context url) rnd"
    using Profile by (simp add: fresh_request_def)
  have "1 \<le> maxAttempts (retryConfig_of (all_fields ?rc))" by (simp add: maxAttempts_profile)
  from withRetry_shape[OF this, of ?op "get_context url" rnd, unfolded retryConfig_of_all_fields]
  obtain k where k:
    "1 \<le> k" "k \<le> maxAttempts ?rc"
    "withRetry ?op (all_fields ?rc) (get_context url) rnd =
         \<lparr>outcome = (case ?op k of Inr v \<Rightarrow> Inr v
                       | Inl e \<Rightarrow> Inl (Err (terminal_error e (get_context url) k ?rc))),
          calls = nat k,
          sleeps = map (\<lambda>j. calculateDelay j ?rc (rnd j)) [1..k - 1]\<rparr>"
    by blast
  from assms obtain e' where e': "?op k = Inl e'" "t = Err (terminal_error e' (get_context url) k ?rc)"
    unfolding fr k(3) by (cases "?op k") auto
  from requestOperation_Inl[OF e'(1)] obtain e0 where e0:
    "transport k = Inl e0" "e' = handleApiError e0 (get_context url)" by blast
  have m: "message (terminal_error e' (get_context url) k ?rc) = getUserFriendlyErrorMessage e0"
    unfolding e0(2) by (simp add: terminal_error_def NetworkError_def msg_or_def friendly_not_empty Let_def)
  have c: "err_context (terminal_error e' (get_context url) k ?rc) =
      (get_context url)\<lparr>ctx_attempt := Some k, ctx_maxAttempts := Some (maxAttempts ?rc)\<rparr>"
    by (simp add: terminal_error_def NetworkError_def Let_def)
  have r: "\<not> isRetryable (terminal_error e' (get_context url) k ?rc)"
    by (simp add: terminal_error_def NetworkError_def Let_def)
  show ?thesis
    unfolding fr k(3) using Profile k(1,2) e0(1) e'(2) m c r by simp
qed

lemma client_get_failure:
  assumes "outcome (fst (client_get now fin url config transport rnd st)) = Inl t"
  shows "fst (client_get now fin url config transport rnd st) =
     fresh_request url (case retryConfig config of None \<Rightarrow> Profile standard | Some r \<Rightarrow> r) transport rnd"
  using assms by (auto simp: client_get_def Let_def split: option.splits if_splits)

text \<open>
  C6 (as amended): whenever \<open>CachedApiClient.get\<close> fails, the failure is that of the
  last transport call made. With a retry profile the caller receives a non-retryable
  \<open>NetworkError\<close> whose message is the user-facing message \<open>handleApiError\<close> derives
  from that failure and whose context is the url and method annotated with the attempt
  reached and \<open>maxAttempts\<close>; with retries switched off the caller receives the error
  built by \<open>handleApiError\<close> itself.
\<close>

theorem C6_terminal_error_of_get:
  assumes "outcome (fst (client_get now fin url config transport rnd st)) = Inl t"
  shows "\<exists>e0. transport (int (calls (fst (client_get now fin url config transport rnd st)))) = Inl e0
           \<and> 1 \<le> calls (fst (client_get now fin url config transport rnd st))
           \<and> (case (case retryConfig config of None \<Rightarrow> Profile standard | Some r \<Rightarrow> r) of
                 NoRetry \<Rightarrow> t = Err (handleApiError e0 (get_context url))
               | Profile p \<Rightarrow>
                   int (calls (fst (client_get now fin url config transport rnd st))) \<le> maxAttempts (RETRY_CONFIGS p)
                   \<and> (\<exists>e. t = Err e
                        \<and> message e = getUserFriendlyErrorMessage e0
                        \<and> err_context e = (get_context url)
                             \<lparr>ctx_attempt := Some (int (calls (fst (client_get now fin url config transport rnd st)))),
                              ctx_maxAttempts := Some (maxAttempts (RETRY_CONFIGS p))\<rparr>
                        \<and> \<not> isRetryable e))"
  using fresh_request_failure[of url _ transport rnd t] assms
  unfolding client_get_failure[OF assms] by blast

lemma get_not_found:
  "fst (client_get 0 1 ''/api/v1/documents'' default_request_config (\<lambda>a. Inl not_found_failure)
          (\<lambda>a. 1 / 2) initial_client) =
     \<lparr>outcome = Inl (Err \<lparr>name = NetworkErrorName, message = Localized NotFound, response = None,
                         status = None, isRetryable = False,
                         err_context = \<lparr>ctx_url = Some ''/api/v1/documents'', ctx_method = Some ''GET'',
                                        ctx_status = None, ctx_attempt = Some 3, ctx_maxAttempts = Some 3\<rparr>\<rparr>),
      calls = 3, sleeps = [1000, 2000]\<rparr>"
  by (simp add: client_get_def default_request_config_def initial_client_def cache_get_def cleanup_def
        remove_expired_def enforce_size_def map_get_def fresh_request_def withRetry_def retry_loop.simps
        requestOperation_def handleApiError_def getUserFriendlyErrorMessage_def not_found_failure_def
        transport_error_def isRetryableError_def retryableStatuses_def NetworkError_def RetryableError_def
        terminal_error_def msg_or_def get_context_def empty_context_def RETRY_standard_def
        calculateDelay_def Let_def apiCache_config_def key_or_url_def)

lemma run_client_snoc: "run_client (evs @ [ev]) = client_step ev (run_client evs)"
  by (simp add: run_client_def)

text \<open>A request that is answered 404 on every call, under the default config.\<close>

theorem C6_terminal_error_of_get_witness:
  "\<exists>e. outcome (fst (client_get 0 1 ''/api/v1/documents'' default_request_config
                      (\<lambda>a. Inl not_found_failure) (\<lambda>a. 1 / 2) initial_client)) = Inl (Err e)
       \<and> message e = getUserFriendlyErrorMessage not_found_failure
       \<and> err_context e = (get_context ''/api/v1/documents'')\<lparr>ctx_attempt := Some 3, ctx_maxAttempts := Some 3\<rparr>"
proof -
  let ?r = "fst (client_get 0 1 ''/api/v1/documents'' default_request_config
                      (\<lambda>a. Inl not_found_failure) (\<lambda>a. 1 / 2) initial_client)"
  obtain t where t: "outcome ?r = Inl t" by (simp add: get_not_found)
  have c: "calls ?r = 3" by (simp add: get_not_found)
  from C6_terminal_error_of_get[OF t] show ?thesis
    unfolding c t by (auto simp: default_request_config_def RETRY_standard_def)
qed

text \<open>
  C6 as stated fails: for a request the server answers with 404, a status that
  \<open>isRetryableError\<close> classifies non-retryable, \<open>get\<close> calls the transport three times,
  and the error it surfaces has the fixed text for 404 as its message and no status.
\<close>

theorem C6_not_found_retried_and_status_dropped:
  "message not_found_failure = Text ''Request failed with status code 404''
   \<and> response not_found_failure = Some \<lparr>resp_status = 404, resp_message = None\<rparr>
   \<and> \<not> isRetryableError not_found_failure
   \<and> fst (client_get 0 1 ''/api/v1/documents'' default_request_config (\<lambda>a. Inl not_found_failure)
          (\<lambda>a. 1 / 2) initial_client) =
     \<lparr>outcome = Inl (Err \<lparr>name = NetworkErrorName, message = Localized NotFound, response = None,
                         status = None, isRetryable = False,
                         err_context = \<lparr>ctx_url = Some ''/api/v1/documents'', ctx_method = Some ''GET'',
                                        ctx_status = None, ctx_attempt = Some 3, ctx_maxAttempts = Some 3\<rparr>\<rparr>),
      calls = 3, sleeps = [1000, 2000]\<rparr>"
proof (intro conjI)
  show "message not_found_failure = Text ''Request failed with status code 404''"
    and "response not_found_failure = Some \<lparr>resp_status = 404, resp_message = None\<rparr>"
    by (simp_all add: not_found_failure_def transport_error_def)
  show "\<not> isRetryableError not_found_failure" by simp
qed (rule get_not_found)

text \<open>
  C8: in every state the client reaches, each key has at most one background refresh in
  flight; a call of \<open>refreshInBackground\<close> for a key whose refresh is in flight leaves
  the state as it is, and for a key without one starts exactly one; a refresh in flight
  stays in flight across every event other than its own settling; and once it settles,
  its key has no refresh in flight.
\<close>

theorem C8_single_background_refresh:
  "length (refreshes_for key (run_client evs)) \<le> 1
   \<and> (refreshes_for (key_or_url ck url) (run_client evs) \<noteq> [] \<longrightarrow>
        refreshInBackground url ps ttl_opt ck (run_client evs) = run_client evs)
   \<and> (refreshes_for (key_or_url ck url) (run_client evs) = [] \<longrightarrow>
        refreshes_for (key_or_url ck url) (refreshInBackground url ps ttl_opt ck (run_client evs)) =
          [(next_promise (run_client evs),
            \<lparr>rf_key = key_or_url ck url, rf_url = url, rf_params = ps, rf_cacheTTL = ttl_opt\<rparr>)])
   \<and> ((p, rf) \<in> set (in_flight (run_client evs)) \<and> (\<forall>now res. ev \<noteq> Settle now p res) \<longrightarrow>
        (p, rf) \<in> set (in_flight (run_client (evs @ [ev]))))
   \<and> ((p, rf) \<in> set (in_flight (run_client evs)) \<longrightarrow>
        refreshes_for (rf_key rf) (run_client (evs @ [Settle now p res])) = [])"
proof (intro conjI impI)
  show "length (refreshes_for key (run_client evs)) \<le> 1"
    by (rule refreshes_for_le_one[OF client_inv_run])
next
  assume "refreshes_for (key_or_url ck url) (run_client evs) \<noteq> []"
  then show "refreshInBackground url ps ttl_opt ck (run_client evs) = run_client evs"
    by (rule refresh_when_busy[OF client_inv_run])
next
  assume "refreshes_for (key_or_url ck url) (run_client evs) = []"
  then show "refreshes_for (key_or_url ck url) (refreshInBackground url ps ttl_opt ck (run_client evs)) =
          [(next_promise (run_client evs),
            \<lparr>rf_key = key_or_url ck url, rf_url = url, rf_params = ps, rf_cacheTTL = ttl_opt\<rparr>)]"
    by (rule refresh_when_idle[OF client_inv_run])
next
  assume "(p, rf) \<in> set (in_flight (run_client evs)) \<and> (\<forall>now res. ev \<noteq> Settle now p res)"
  then show "(p, rf) \<in> set (in_flight (run_client (evs @ [ev])))"
    unfolding run_client_snoc using stays_in_flight by blast
next
  assume "(p, rf) \<in> set (in_flight (run_client evs))"
  then show "refreshes_for (rf_key rf) (run_client (evs @ [Settle now p res])) = []"
    unfolding run_client_snoc client_step.simps by (rule settle_frees_key[OF client_inv_run])
qed

text \<open>One refresh of the dashboard in flight: a second call is dropped, settling frees the key.\<close>

theorem C8_single_background_refresh_witness:
  "refreshInBackground ''/api/v1/dashboard'' None None None
       (run_client [CallRefresh ''/api/v1/dashboard'' None None None]) =
     run_client [CallRefresh ''/api/v1/dashboard'' None None None]
   \<and> length (refreshes_for ''/api/v1/documents''
        (refreshInBackground ''/api/v1/documents'' None None None
           (run_client [CallRefresh ''/api/v1/dashboard'' None None None]))) = 1
   \<and> length (in_flight (run_client ([CallRefresh ''/api/v1/dashboard'' None None None]
        @ [CallRefresh ''/api/v1/dashboard'' None None None]))) = 1
   \<and> refreshes_for ''/api/v1/dashboard''
        (run_client ([CallRefresh ''/api/v1/dashboard'' None None None] @ [Settle 5 0 (Inr JNull)])) = []"
  using C8_single_background_refresh[of "''/api/v1/dashboard''" "[CallRefresh ''/api/v1/dashboard'' None None None]"
          None "''/api/v1/dashboard''" None None 0
          "\<lparr>rf_key = ''/api/v1/dashboard'', rf_url = ''/api/v1/dashboard'', rf_params = None, rf_cacheTTL = None\<rparr>"
          "CallRefresh ''/api/v1/dashboard'' None None None" 5 "Inr JNull"]
        C8_single_background_refresh[of "''/api/v1/dashboard''" "[CallRefresh ''/api/v1/dashboard'' None None None]"
          None "''/api/v1/documents''" None None 0
          "\<lparr>rf_key = ''/api/v1/dashboard'', rf_url = ''/api/v1/dashboard'', rf_params = None, rf_cacheTTL = None\<rparr>"
          "CallRefresh ''/api/v1/dashboard'' None None None" 5 "Inr JNull"]
  by (simp add: run_client_def initial_client_def refreshes_for_def key_or_url_def refreshInBackground_def
        map_has_def map_set_def map_delete_def settle_refresh_def cache_set_def cleanup_def remove_expired_def
        enforce_size_def apiCache_config_def Let_def)

section \<open>Properties of the optimistic update\<close>

lemmas hook_defs = executeOptimisticUpdate_begin_def executeOptimisticUpdate_resolve_def
  executeOptimisticUpdate_reject_def fire_timer_def rollbackImmediately_def updateData_def
  clearError_def render_def

lemma timers_inv_step: "timers_inv h \<Longrightarrow> timers_inv (hook_step ev h)"
  by (cases ev)
     (auto simp: timers_inv_def hook_defs clearTimeout_def Let_def less_Suc_eq distinct_map_filter
        split: option.splits)

lemma timers_inv_fold: "timers_inv h \<Longrightarrow> timers_inv (fold hook_step evs h)"
  by (induction evs arbitrary: h) (simp_all add: timers_inv_step)

lemma timers_inv_run: "timers_inv (run_hook d0 dl evs)"
  unfolding run_hook_def
  by (rule timers_inv_fold) (simp add: timers_inv_def useOptimisticUpdate_def)

lemma run_hook_append: "run_hook d0 dl (evs @ evs') = fold hook_step evs' (run_hook d0 dl evs)"
  by (simp add: run_hook_def)

lemma rollbackDelay_step [simp]: "rollbackDelay (hook_step ev h) = rollbackDelay h"
  by (cases ev) (auto simp: hook_defs Let_def split: option.splits)

lemma rollbackDelay_fold [simp]: "rollbackDelay (fold hook_step evs h) = rollbackDelay h"
  by (induction evs arbitrary: h) simp_all

lemma rollbackDelay_run:
  "rollbackDelay (run_hook d0 dl evs) = (case dl of None \<Rightarrow> 3000 | Some x \<Rightarrow> x)"
  by (simp add: run_hook_def useOptimisticUpdate_def)

subsection \<open>What the events between the steps of an update leave alone\<close>

lemma original_kept_step:
  "\<not> apply_or_confirm ev \<Longrightarrow> originalDataRef (hook_step ev h) = originalDataRef h"
  by (cases ev) (auto simp: hook_defs Let_def split: option.splits)

lemma original_kept:
  "\<forall>ev \<in> set evs. \<not> apply_or_confirm ev \<Longrightarrow> originalDataRef (fold hook_step evs h) = originalDataRef h"
  by (induction evs arbitrary: h) (simp_all add: original_kept_step)

lemma display_kept_step:
  "leaves_display ev \<Longrightarrow>
     os_data (state (hook_step ev h)) = os_data (state h)
     \<and> os_isOptimistic (state (hook_step ev h)) = os_isOptimistic (state h)"
  by (cases ev) (auto simp: hook_defs)

lemma display_kept:
  "\<forall>ev \<in> set evs. leaves_display ev \<Longrightarrow>
     os_data (state (fold hook_step evs h)) = os_data (state h)
     \<and> os_isOptimistic (state (fold hook_step evs h)) = os_isOptimistic (state h)"
  by (induction evs arbitrary: h) (simp_all add: display_kept_step)

lemma map_of_filter_other:
  "k \<noteq> i \<Longrightarrow> map_of (filter (\<lambda>tm. fst tm \<noteq> i) ts) k = map_of ts k"
  by (induction ts) auto

lemma timer_kept_step:
  assumes "leaves_timer handle ev" and "map_of (timers h) handle = Some x"
  shows "map_of (timers (hook_step ev h)) handle = Some x
     \<and> originalDataRef (hook_step ev h) = originalDataRef h"
proof (cases ev)
  case (Fire now i)
  then have "i \<noteq> handle" using assms(1) by simp
  then show ?thesis
    using Fire assms(2) by (auto simp: fire_timer_def map_of_filter_other split: option.splits)
next
  case (Reject now e)
  then show ?thesis
    using assms(2) by (simp add: executeOptimisticUpdate_reject_def Let_def map_add_def)
qed (use assms in \<open>auto simp: hook_defs\<close>)

lemma timer_kept:
  assumes "\<forall>ev \<in> set evs. leaves_timer handle ev" and "map_of (timers h) handle = Some x"
  shows "map_of (timers (fold hook_step evs h)) handle = Some x
     \<and> originalDataRef (fold hook_step evs h) = originalDataRef h"
  using assms
proof (induction evs arbitrary: h)
  case Nil
  then show ?case by simp
next
  case (Cons ev evs)
  from timer_kept_step[of handle ev h x] Cons.prems
  have s: "map_of (timers (hook_step ev h)) handle = Some x"
    "originalDataRef (hook_step ev h) = originalDataRef h" by simp_all
  from Cons.IH[OF _ s(1)] Cons.prems(1) s(2) show ?case by simp
qed

subsection \<open>The steps of a failed update\<close>

lemma begin_state:
  "state (executeOptimisticUpdate_begin d h) =
     \<lparr>os_data = d, os_loading = True, os_error = None, os_isOptimistic = True\<rparr>"
  "originalDataRef (executeOptimisticUpdate_begin d h) = rendered_data h"
  by (simp_all add: executeOptimisticUpdate_begin_def)

lemma reject_state:
  "state (executeOptimisticUpdate_reject t0 e h) =
     (state h)\<lparr>os_loading := False, os_error := Some (as_network_error e), os_isOptimistic := True\<rparr>"
  "originalDataRef (executeOptimisticUpdate_reject t0 e h) = originalDataRef h"
  by (simp_all add: executeOptimisticUpdate_reject_def Let_def)

lemma reject_timer:
  assumes "timers_inv h"
  shows "map_of (timers (executeOptimisticUpdate_reject t0 e h)) (next_timer h) =
           Some (t0 + rollbackDelay h, as_network_error e)"
proof -
  have "next_timer h \<notin> fst ` set (timers h)" using assms by (auto simp: timers_inv_def)
  then have "map_of (timers h) (next_timer h) = None" by (simp add: map_of_eq_None_iff)
  then show ?thesis by (simp add: executeOptimisticUpdate_reject_def Let_def map_add_def)
qed

lemma fire_not_due:
  "map_of (timers h) handle = Some (due, err) \<Longrightarrow> t < due \<Longrightarrow> fire_timer t handle h = h"
  by (simp add: fire_timer_def)

lemma fire_due:
  "map_of (timers h) handle = Some (due, err) \<Longrightarrow> due \<le> t \<Longrightarrow>
     state (fire_timer t handle h) =
       \<lparr>os_data = originalDataRef h, os_loading = False, os_error = Some err, os_isOptimistic = False\<rparr>"
  by (simp add: fire_timer_def)

lemma failed_update_timer:
  fixes h :: "'a optimistic_hook"
  assumes inv: "timers_inv h"
    and m1: "\<forall>ev \<in> set mid1. \<not> apply_or_confirm ev"
    and m2: "\<forall>ev \<in> set mid2. leaves_timer (next_timer (fold hook_step mid1 (executeOptimisticUpdate_begin d h))) ev"
  shows "map_of (timers (fold hook_step mid2 (executeOptimisticUpdate_reject t0 e
                  (fold hook_step mid1 (executeOptimisticUpdate_begin d h)))))
            (next_timer (fold hook_step mid1 (executeOptimisticUpdate_begin d h)))
           = Some (t0 + rollbackDelay h, as_network_error e)"
    and "originalDataRef (fold hook_step mid2 (executeOptimisticUpdate_reject t0 e
                  (fold hook_step mid1 (executeOptimisticUpdate_begin d h)))) = rendered_data h"
proof -
  let ?hC = "fold hook_step mid1 (executeOptimisticUpdate_begin d h)"
  let ?hD = "executeOptimisticUpdate_reject t0 e ?hC"
  have "timers_inv (hook_step (Begin d) h)" using inv by (rule timers_inv_step)
  then have invC: "timers_inv ?hC" by (simp add: timers_inv_fold)
  have dl: "rollbackDelay ?hC = rollbackDelay h"
    using rollbackDelay_step[of "Begin d" h] by simp
  have tm: "map_of (timers ?hD) (next_timer ?hC) = Some (t0 + rollbackDelay h, as_network_error e)"
    using reject_timer[OF invC, of t0 e] dl by simp
  have o: "originalDataRef ?hD = rendered_data h"
    using original_kept[OF m1, of "executeOptimisticUpdate_begin d h"]
    by (simp add: reject_state begin_state)
  from timer_kept[OF m2 tm] o
  show "map_of (timers (fold hook_step mid2 ?hD)) (next_timer ?hC) = Some (t0 + rollbackDelay h, as_network_error e)"
    and "originalDataRef (fold hook_step mid2 ?hD) = rendered_data h" by simp_all
qed

subsection \<open>Confirmed values\<close>

lemma confirmed_from_append:
  "confirmed_from c (xs @ ys) = confirmed_from (confirmed_from c xs) ys"
  by (induction c xs rule: confirmed_from.induct) simp_all

lemma rendered_confirmed:
  assumes "ends_confirmed evs"
  shows "rendered_data (run_hook d0 dl evs) = confirmed_value d0 evs"
proof (cases "rev evs")
  case Nil
  then show ?thesis by (simp add: run_hook_def useOptimisticUpdate_def confirmed_value_def)
next
  case (Cons a as)
  then obtain b rest where as: "as = b # rest" and a: "a = Render"
    and b: "(\<exists>r. b = Resolve r) \<or> (\<exists>v. b = UpdateData v)"
    using assms by (auto simp: ends_confirmed_def split: list.splits hook_event.splits)
  have evs: "evs = rev rest @ [b, Render]"
    using Cons as a by (metis append.assoc append_Cons append_Nil rev.simps(2) rev_rev_ident)
  from b show ?thesis
  proof
    assume "\<exists>r. b = Resolve r"
    then obtain r where "b = Resolve r" by blast
    then show ?thesis
      unfolding evs run_hook_append confirmed_value_def confirmed_from_append
      by (simp add: render_def executeOptimisticUpdate_resolve_def)
  next
    assume "\<exists>v. b = UpdateData v"
    then obtain v where "b = UpdateData v" by blast
    then show ?thesis
      unfolding evs run_hook_append confirmed_value_def confirmed_from_append
      by (simp add: render_def updateData_def)
  qed
qed

text \<open>
  C10 (as amended): for every optimistic update whose operation fails, in whatever state
  the hook was and whatever else happens before the failure, the speculative value is
  shown at once; at the failure the error is surfaced with the update still marked
  optimistic, and the speculative value stays on display as long as nothing but renders
  and \<open>clearError\<close> happens. The rollback timeout set at the failure is due
  \<open>rollbackDelay\<close> (3000 ms by default) after it. With no further
  \<open>executeOptimisticUpdate\<close> or \<open>updateData\<close> call since the update was started, and no
  \<open>rollbackImmediately\<close> since it failed, that timeout does nothing before it is due,
  and when it runs, data reverts to the value remembered at the start of the update: the
  \<open>state.data\<close> of the render the call was made from. That value is the confirmed
  value when the update was started right after the render of a confirmation.
\<close>

theorem C10_failed_update_rolls_back:
  fixes d0 d :: 'a and dl :: "int option" and evs mid1 mid2 :: "'a hook_event list"
    and t0 t :: int and e :: js_error
  defines "hA \<equiv> run_hook d0 dl evs"
    and "hC \<equiv> run_hook d0 dl (evs @ [Begin d] @ mid1)"
    and "hD \<equiv> run_hook d0 dl (evs @ [Begin d] @ mid1 @ [Reject t0 e])"
    and "hE \<equiv> run_hook d0 dl (evs @ [Begin d] @ mid1 @ [Reject t0 e] @ mid2)"
  shows
  "state (run_hook d0 dl (evs @ [Begin d])) =
      \<lparr>os_data = d, os_loading = True, os_error = None, os_isOptimistic = True\<rparr>
   \<and> os_error (state hD) = Some (as_network_error e) \<and> os_isOptimistic (state hD)
   \<and> \<not> os_loading (state hD)
   \<and> ((\<forall>ev \<in> set mid1. leaves_display ev) \<and> (\<forall>ev \<in> set mid2. leaves_display ev) \<longrightarrow>
        os_data (state hE) = d \<and> os_isOptimistic (state hE))
   \<and> rollbackDelay hA = (case dl of None \<Rightarrow> 3000 | Some x \<Rightarrow> x)
   \<and> ((\<forall>ev \<in> set mid1. \<not> apply_or_confirm ev) \<and> (\<forall>ev \<in> set mid2. leaves_timer (next_timer hC) ev)
        \<and> t < t0 + rollbackDelay hA \<longrightarrow>
        hook_step (Fire t (next_timer hC)) hE = hE)
   \<and> ((\<forall>ev \<in> set mid1. \<not> apply_or_confirm ev) \<and> (\<forall>ev \<in> set mid2. leaves_timer (next_timer hC) ev)
        \<and> t0 + rollbackDelay hA \<le> t \<longrightarrow>
        state (hook_step (Fire t (next_timer hC)) hE) =
          \<lparr>os_data = rendered_data hA, os_loading = False,
           os_error = Some (as_network_error e), os_isOptimistic = False\<rparr>)
   \<and> (ends_confirmed evs \<longrightarrow> rendered_data hA = confirmed_value d0 evs)"
proof -
  let ?hB = "executeOptimisticUpdate_begin d hA"
  let ?hC = "fold hook_step mid1 ?hB"
  let ?hD = "executeOptimisticUpdate_reject t0 e ?hC"
  let ?hE = "fold hook_step mid2 ?hD"
  have hC: "hC = ?hC" and hD: "hD = ?hD" and hE: "hE = ?hE"
    and hB: "run_hook d0 dl (evs @ [Begin d]) = ?hB"
    by (simp_all add: hA_def hC_def hD_def hE_def run_hook_def)
  have inv: "timers_inv hA" unfolding hA_def by (rule timers_inv_run)
  have c1: "state (run_hook d0 dl (evs @ [Begin d])) =
      \<lparr>os_data = d, os_loading = True, os_error = None, os_isOptimistic = True\<rparr>"
    unfolding hB by (rule begin_state)
  have c2: "os_error (state hD) = Some (as_network_error e)" "os_isOptimistic (state hD)"
    "\<not> os_loading (state hD)"
    unfolding hD by (simp_all add: reject_state)
  have c3: "os_data (state hE) = d \<and> os_isOptimistic (state hE)"
    if "(\<forall>ev \<in> set mid1. leaves_display ev) \<and> (\<forall>ev \<in> set mid2. leaves_display ev)"
  proof -
    have "os_data (state ?hC) = d" using display_kept[of mid1 ?hB] that by (simp add: begin_state)
    then have "os_data (state ?hD) = d" "os_isOptimistic (state ?hD)" by (simp_all add: reject_state)
    then show ?thesis unfolding hE using display_kept[of mid2 ?hD] that by simp
  qed
  have c4: "rollbackDelay hA = (case dl of None \<Rightarrow> 3000 | Some x \<Rightarrow> x)"
    unfolding hA_def by (rule rollbackDelay_run)
  have tm: "map_of (timers hE) (next_timer hC) = Some (t0 + rollbackDelay hA, as_network_error e)"
    and og: "originalDataRef hE = rendered_data hA"
    if "(\<forall>ev \<in> set mid1. \<not> apply_or_confirm ev) \<and> (\<forall>ev \<in> set mid2. leaves_timer (next_timer hC) ev)"
    using failed_update_timer[OF inv, of mid1 mid2 d t0 e] that unfolding hC hE by simp_all
  have c5: "hook_step (Fire t (next_timer hC)) hE = hE"
    if "(\<forall>ev \<in> set mid1. \<not> apply_or_confirm ev) \<and> (\<forall>ev \<in> set mid2. leaves_timer (next_timer hC) ev)
        \<and> t < t0 + rollbackDelay hA"
    using fire_not_due[OF tm, of t] that by simp
  have c6: "state (hook_step (Fire t (next_timer hC)) hE) =
          \<lparr>os_data = rendered_data hA, os_loading = False,
           os_error = Some (as_network_error e), os_isOptimistic = False\<rparr>"
    if "(\<forall>ev \<in> set mid1. \<not> apply_or_confirm ev) \<and> (\<forall>ev \<in> set mid2. leaves_timer (next_timer hC) ev)
        \<and> t0 + rollbackDelay hA \<le> t"
    using fire_due[OF tm, of t] og that by simp
  have c7: "rendered_data hA = confirmed_value d0 evs" if "ends_confirmed evs"
    unfolding hA_def using that by (rule rendered_confirmed)
  show ?thesis using c1 c2 c3 c4 c5 c6 c7 by blast
qed

lemmas run_defs = run_hook_def useOptimisticUpdate_def executeOptimisticUpdate_begin_def
  executeOptimisticUpdate_reject_def executeOptimisticUpdate_resolve_def fire_timer_def render_def
  clearError_def clearTimeout_def updateData_def Let_def

text \<open>
  After \<open>updateData\<close> has set 7 and the component has rendered, an update showing 1
  fails at time 100, with renders and a \<open>clearError\<close> in between: the timeout does
  nothing at 3099 and rolls back to 7 at 3100.
\<close>

theorem C10_failed_update_rolls_back_witness:
  "os_data (state (run_hook (JNum 0) None
      ([UpdateData (JNum 7), Render] @ [Begin (JNum 1)] @ [Render] @ [Reject 100 unavailable_failure] @ [Render, ClearError]))) = JNum 1
   \<and> hook_step (Fire 3099 0)
        (run_hook (JNum 0) None
          ([UpdateData (JNum 7), Render] @ [Begin (JNum 1)] @ [Render] @ [Reject 100 unavailable_failure] @ [Render, ClearError])) =
      run_hook (JNum 0) None
          ([UpdateData (JNum 7), Render] @ [Begin (JNum 1)] @ [Render] @ [Reject 100 unavailable_failure] @ [Render, ClearError])
   \<and> state (hook_step (Fire 3100 0)
        (run_hook (JNum 0) None
          ([UpdateData (JNum 7), Render] @ [Begin (JNum 1)] @ [Render] @ [Reject 100 unavailable_failure] @ [Render, ClearError]))) =
        \<lparr>os_data = JNum 7, os_loading = False, os_error = Some (as_network_error unavailable_failure),
         os_isOptimistic = False\<rparr>
   \<and> confirmed_value (JNum 0) [UpdateData (JNum 7), Render] = JNum 7"
  using C10_failed_update_rolls_back[of "JNum 0" None "[UpdateData (JNum 7), Render]" "JNum 1" "[Render]" 100 unavailable_failure
          "[Render, ClearError]" 3099]
        C10_failed_update_rolls_back[of "JNum 0" None "[UpdateData (JNum 7), Render]" "JNum 1" "[Render]" 100 unavailable_failure
          "[Render, ClearError]" 3100]
  by (simp add: run_defs ends_confirmed_def confirmed_value_def)

text \<open>
  C10 as stated fails when an update is started while the speculative value of an earlier
  failed update is still on display. The confirmed value is 0; the first update shows 1
  and fails; the component renders; the second update shows 2, fails, and nothing
  further is called; its rollback puts 1 on display, a value that was never confirmed.
\<close>

theorem C10_reverts_to_unconfirmed_value:
  "confirmed_value (JNum 0)
      [Begin (JNum 1), Render, Reject 0 unavailable_failure, Render, Begin (JNum 2), Render,
       Reject 1000 unavailable_failure, Render] = JNum 0
   \<and> state (run_hook (JNum 0) None
        [Begin (JNum 1), Render, Reject 0 unavailable_failure, Render, Begin (JNum 2), Render,
         Reject 1000 unavailable_failure, Render, Fire 4000 1]) =
      \<lparr>os_data = JNum 1, os_loading = False, os_error = Some (as_network_error unavailable_failure),
       os_isOptimistic = False\<rparr>"
  by (simp add: run_defs confirmed_value_def)

section \<open>Properties of the upload hook\<close>

subsection \<open>Task statuses\<close>

lemma map_of_map_snd: "map_of (map (\<lambda>e. (fst e, f (snd e))) xs) k = map_option f (map_of xs k)"
  by (induction xs) auto

lemma status_of_statuses: "status_of k h = map_of (statuses h) k"
  by (simp add: status_of_def statuses_def map_get_def map_of_map_snd)

lemma count_uploading_statuses:
  "count_uploading h = length (filter (\<lambda>e. snd e = S_uploading) (statuses h))"
  by (simp add: count_uploading_def statuses_def filter_map comp_def)

lemma keys_set_status [simp]: "map fst (set_status k s sl) = map fst sl"
  by (induction sl) (auto simp: set_status_def)

lemma map_of_set_status:
  "map_of (set_status k s sl) k' = (if k' = k then map_option (\<lambda>x. s) (map_of sl k) else map_of sl k')"
  by (induction sl) (auto simp: set_status_def)

lemma statuses_updateProgress:
  assumes "\<And>p. up_status (u p) = s"
  shows "statuses (updateProgress fid u h) = set_status fid s (statuses h)"
proof (cases "map_get fid (uploadProgress h)")
  case None
  then have "fid \<notin> fst ` set (uploadProgress h)" by (simp add: map_get_def map_of_eq_None_iff)
  then have "map (\<lambda>e. if fst e = fid then (fid, s) else e) (statuses h) = statuses h"
    by (intro map_idI) (force simp: statuses_def)
  then show ?thesis using None by (simp add: updateProgress_def set_status_def)
next
  case (Some current)
  then have "fid \<in> fst ` set (uploadProgress h)"
    by (metis map_get_def map_of_eq_None_iff option.distinct(1))
  then have has: "map_has fid (uploadProgress h)" by (simp add: map_has_def)
  show ?thesis
    using Some has assms
    by (simp add: updateProgress_def map_set_def statuses_def set_status_def)
qed

lemma statuses_start:
  "statuses (uploadSingleFile_start file b h) = set_status (generateFileId file) S_uploading (statuses h)"
proof -
  have "statuses (updateProgress (generateFileId file) (\<lambda>p. p\<lparr>up_status := S_uploading\<rparr>) h') =
          set_status (generateFileId file) S_uploading (statuses h')" for h'
    by (rule statuses_updateProgress) simp
  moreover have "statuses (h'\<lparr>fetches := x\<rparr>) = statuses h'" for h' x by (simp add: statuses_def)
  moreover have "statuses (h\<lparr>abortControllers := x, next_controller := y\<rparr>) = statuses h" for x y
    by (simp add: statuses_def)
  ultimately show ?thesis by (simp add: uploadSingleFile_start_def Let_def)
qed

lemma keys_processUploadQueue:
  "map fst (statuses (processUploadQueue q h)) = map fst (statuses h)"
proof (induction q arbitrary: h)
  case Nil
  then show ?case by (simp add: statuses_def)
next
  case (Cons fid rest)
  have a: "statuses (h\<lparr>activeUploads := x\<rparr>) = statuses h" for x by (simp add: statuses_def)
  have q: "statuses (h\<lparr>uploadQueue := x\<rparr>) = statuses h" for x by (simp add: statuses_def)
  show ?case
    by (simp add: Cons.IH statuses_start a q split: option.splits)
qed

lemma statuses_fold_start:
  "statuses (fold (\<lambda>file. uploadSingleFile_start file b) files h) =
     fold (\<lambda>file. set_status (generateFileId file) S_uploading) files (statuses h)"
  by (induction files arbitrary: h) (simp_all add: statuses_start)

lemma fold_set_status_all:
  assumes "fst ` set sl \<subseteq> generateFileId ` set files"
  shows "fold (\<lambda>file. set_status (generateFileId file) S_uploading) files sl =
           map (\<lambda>e. (fst e, S_uploading)) sl"
proof -
  have "fold (\<lambda>file. set_status (generateFileId file) S_uploading) files sl =
          map (\<lambda>e. if fst e \<in> generateFileId ` set files then (fst e, S_uploading) else e) sl"
    for sl :: "(string \<times> upload_status) list"
  proof (induction files rule: rev_induct)
    case Nil
    then show ?case by simp
  next
    case (snoc x xs)
    then show ?case by (auto simp: set_status_def)
  qed
  moreover have "map (\<lambda>e. if fst e \<in> generateFileId ` set files then (fst e, S_uploading) else e) sl =
      map (\<lambda>e. (fst e, S_uploading)) sl"
    using assms by (intro map_cong) auto
  ultimately show ?thesis by simp
qed

lemma keys_map_set: "fst ` set (map_set k v m) = insert k (fst ` set m)"
proof (cases "map_has k m")
  case True
  have "map fst (map (\<lambda>e. if fst e = k then (k, v) else e) m) = map fst m"
    by (induction m) auto
  then have "fst ` set (map (\<lambda>e. if fst e = k then (k, v) else e) m) = fst ` set m"
    by (metis list.set_map)
  then show ?thesis using True by (auto simp: map_set_def map_has_def)
next
  case False
  then show ?thesis by (simp add: map_set_def)
qed

lemma fold_map_set_keys:
  "fst ` set (fold (\<lambda>x m. map_set (key x) (val x) m) xs m0) = fst ` set m0 \<union> key ` set xs"
  by (induction xs arbitrary: m0) (simp_all add: keys_map_set)


lemma fold_map_set_distinct:
  assumes "distinct (map key xs)"
  shows "fold (\<lambda>x m. map_set (key x) (val x) m) xs [] = map (\<lambda>x. (key x, val x)) xs"
  using assms
proof (induction xs rule: rev_induct)
  case Nil
  then show ?case by simp
next
  case (snoc x xs)
  then have "\<not> map_has (key x) (map (\<lambda>x. (key x, val x)) xs)"
    by (auto simp: map_has_def image_iff)
  then show ?case using snoc by (simp add: map_set_def)
qed

lemma selectFiles_fields [simp]:
  "selectedFiles (selectFiles files h) = files"
  "validationResults (selectFiles files h) = Some (validateFiles files (validationConfig h))"
  "maxConcurrentUploads (selectFiles files h) = maxConcurrentUploads h"
  "fetches (selectFiles files h) = fetches h"
  "reports (selectFiles files h) = reports h"
  by (simp_all add: selectFiles_def Let_def)

lemma selectFiles_keys:
  "fst ` set (statuses (selectFiles files h)) = generateFileId ` set files"
proof -
  have "fst ` set (statuses h') = fst ` set (uploadProgress h')" for h'
    by (simp add: statuses_def image_image)
  then show ?thesis
    by (simp add: selectFiles_def Let_def fold_map_set_keys[where key = generateFileId])
qed


lemma selectFiles_distinct:
  assumes "distinct (map generateFileId files)"
  shows "statuses (selectFiles files h) = map (\<lambda>f. (generateFileId f, initial_status files h)) files"
proof -
  let ?v = "validateFiles files (validationConfig h)"
  let ?val = "\<lambda>file. \<lparr>fileId = generateFileId file, fileName = file_name file, progress = 0, uploaded = 0,
                 total = file_size file, speed = 0,
                 up_status = (if isValid ?v then S_pending else S_error),
                 up_error = (case find (\<lambda>r. fst r = file) (results ?v) of
                               None \<Rightarrow> None
                             | Some r \<Rightarrow> Some (Joined (vr_errors (snd r))))\<rparr>"
  have "uploadProgress (selectFiles files h) =
      fold (\<lambda>x m. map_set (generateFileId x) (?val x) m) files []"
    by (simp add: selectFiles_def Let_def)
  also have "\<dots> = map (\<lambda>x. (generateFileId x, ?val x)) files"
    by (rule fold_map_set_distinct[OF assms])
  finally have "uploadProgress (selectFiles files h) = map (\<lambda>x. (generateFileId x, ?val x)) files" .
  then show ?thesis by (simp add: statuses_def initial_status_def comp_def)
qed


lemma uploadFiles_start_statuses:
  assumes "validationResults h = Some v" and "isValid v" and "selectedFiles h \<noteq> []"
    and "fst ` set (statuses h) \<subseteq> generateFileId ` set (selectedFiles h)"
  shows "statuses (uploadFiles_start h) = map (\<lambda>e. (fst e, S_uploading)) (statuses h)"
proof -
  let ?h1 = "processUploadQueue (map generateFileId (selectedFiles h)) h"
  let ?h2 = "?h1\<lparr>batches := batches ?h1 @ [(next_batch ?h1, length (selectedFiles h), [])],
                 next_batch := Suc (next_batch ?h1)\<rparr>"
  have k: "map fst (statuses ?h2) = map fst (statuses h)"
    using keys_processUploadQueue[of "map generateFileId (selectedFiles h)" h] by (simp add: statuses_def)
  then have sub: "fst ` set (statuses ?h2) \<subseteq> generateFileId ` set (selectedFiles h)"
    using assms(4) by (metis list.set_map)
  have "statuses (uploadFiles_start h) =
      fold (\<lambda>file. set_status (generateFileId file) S_uploading) (selectedFiles h) (statuses ?h2)"
    using assms(1,2,3) by (simp add: uploadFiles_start_def Let_def statuses_fold_start)
  also have "\<dots> = map (\<lambda>e. (fst e, S_uploading)) (statuses ?h2)"
    by (rule fold_set_status_all[OF sub])
  also have "\<dots> = map (\<lambda>k. (k, S_uploading)) (map fst (statuses ?h2))" by (simp add: comp_def)
  also have "\<dots> = map (\<lambda>e. (fst e, S_uploading)) (statuses h)" unfolding k by (simp add: comp_def)
  finally show ?thesis .
qed

lemma batch_all_uploading:
  assumes "isValid (validateFiles files (validationConfig h))" and "files \<noteq> []"
    and "distinct (map generateFileId files)"
  shows "statuses (uploadFiles_start (selectFiles files h)) = map (\<lambda>f. (generateFileId f, S_uploading)) files"
    and "count_uploading (uploadFiles_start (selectFiles files h)) = length files"
proof -
  have "fst ` set (statuses (selectFiles files h)) \<subseteq> generateFileId ` set (selectedFiles (selectFiles files h))"
    by (simp add: selectFiles_keys)
  from uploadFiles_start_statuses[OF selectFiles_fields(2) assms(1) _ this] assms(2)
  have "statuses (uploadFiles_start (selectFiles files h)) =
      map (\<lambda>e. (fst e, S_uploading)) (statuses (selectFiles files h))" by simp
  then show s: "statuses (uploadFiles_start (selectFiles files h)) = map (\<lambda>f. (generateFileId f, S_uploading)) files"
    by (simp add: selectFiles_distinct[OF assms(3)] comp_def)
  show "count_uploading (uploadFiles_start (selectFiles files h)) = length files"
    unfolding count_uploading_statuses s by (simp add: filter_map comp_def)
qed

lemmas validate_defs = validateFile_def getFileInfo_def toLowerCase_def lower_char_def
  suspicious_extension_def leading_dot_def reserved_character_def ends_with_def
  DEFAULT_VALIDATION_CONFIG_def Let_def

lemma doc_a_valid: "vr_isValid (validateFile (doc ''a.pdf'') DEFAULT_VALIDATION_CONFIG)"
  by (simp add: validate_defs doc_def)

lemma doc_b_valid: "vr_isValid (validateFile (doc ''b.pdf'') DEFAULT_VALIDATION_CONFIG)"
  by (simp add: validate_defs doc_def)

lemma doc_c_valid: "vr_isValid (validateFile (doc ''c.pdf'') DEFAULT_VALIDATION_CONFIG)"
  by (simp add: validate_defs doc_def)

lemma doc_d_valid: "vr_isValid (validateFile (doc ''d.pdf'') DEFAULT_VALIDATION_CONFIG)"
  by (simp add: validate_defs doc_def)

lemma picture_invalid: "\<not> vr_isValid (validateFile picture DEFAULT_VALIDATION_CONFIG)"
  by (simp add: validate_defs picture_def)

lemma four_documents_valid: "isValid (validateFiles four_documents DEFAULT_VALIDATION_CONFIG)"
proof -
  have "maxFiles DEFAULT_VALIDATION_CONFIG = Some 10" "v_maxSize DEFAULT_VALIDATION_CONFIG = 10 * 1024 * 1024"
    by (simp_all add: DEFAULT_VALIDATION_CONFIG_def)
  moreover have "duplicates_after [] (map (\<lambda>f. toLowerCase (file_name f)) four_documents) = []"
    by (simp add: four_documents_def doc_def toLowerCase_def lower_char_def)
  moreover have "sum_list (map file_size four_documents) = 4000" "length four_documents = 4"
    by (simp_all add: four_documents_def doc_def)
  moreover have "list_all (\<lambda>r. vr_isValid (snd r))
      (map (\<lambda>file. (file, validateFile file DEFAULT_VALIDATION_CONFIG)) four_documents)"
    by (simp add: four_documents_def doc_a_valid doc_b_valid doc_c_valid doc_d_valid)
  ultimately show ?thesis by (simp add: validateFiles_def Let_def)
qed

lemma four_documents_ids:
  "map generateFileId four_documents = [''a.pdf_1000_1'', ''b.pdf_1000_1'', ''c.pdf_1000_1'', ''d.pdf_1000_1'']"
  by (simp add: four_documents_def generateFileId_def doc_def string_of_int_def digit_char_def)

lemma init_fields [simp]:
  "validationConfig (useFileUpload None None) = DEFAULT_VALIDATION_CONFIG"
  "maxConcurrentUploads (useFileUpload None None) = 3"
  "fetches (useFileUpload None None) = []"
  "reports (useFileUpload None None) = []"
  by (simp_all add: useFileUpload_def)

text \<open>
  C1, on the code: with the default bound of three, starting a batch of four valid files
  puts all four tasks in \<open>uploading\<close> at once. \<open>uploadFiles\<close> first lets
  \<open>processUploadQueue\<close> start three uploads and then calls \<open>uploadSingleFile\<close> itself for
  every selected file.
\<close>

theorem C1_four_uploading_under_bound_three:
  "maxConcurrentUploads (useFileUpload None None) = 3
   \<and> count_uploading (uploadFiles_start (selectFiles four_documents (useFileUpload None None))) = 4
   \<and> statuses (uploadFiles_start (selectFiles four_documents (useFileUpload None None))) =
       [(''a.pdf_1000_1'', S_uploading), (''b.pdf_1000_1'', S_uploading),
        (''c.pdf_1000_1'', S_uploading), (''d.pdf_1000_1'', S_uploading)]"
proof -
  have v: "isValid (validateFiles four_documents (validationConfig (useFileUpload None None)))"
    by (simp add: four_documents_valid)
  have n: "four_documents \<noteq> []" by (simp add: four_documents_def)
  have d: "distinct (map generateFileId four_documents)" by (simp add: four_documents_ids)
  have "map (\<lambda>f. (generateFileId f, S_uploading)) four_documents =
      map (\<lambda>k. (k, S_uploading)) (map generateFileId four_documents)" by (simp add: comp_def)
  then show ?thesis
    using batch_all_uploading[OF v n d] by (simp add: four_documents_ids) (simp add: four_documents_def)
qed

text \<open>In that batch the number of tasks in \<open>uploading\<close> exceeds the bound.\<close>

theorem C1_four_uploading_under_bound_three_witness:
  "count_uploading (uploadFiles_start (selectFiles four_documents (useFileUpload None None)))
     > maxConcurrentUploads (useFileUpload None None)"
  using C1_four_uploading_under_bound_three by simp

subsection \<open>Cancellation\<close>

lemma statuses_cancelUpload:
  "statuses (cancelUpload fid h) = set_status fid S_cancelled (statuses h)"
proof -
  have "statuses (updateProgress fid (\<lambda>p. p\<lparr>up_status := S_cancelled,
            up_error := Some (Msg (Localized UploadCancelled))\<rparr>) h') =
          set_status fid S_cancelled (statuses h')" for h'
    by (rule statuses_updateProgress) simp
  moreover have "statuses (h'\<lparr>uploadQueue := x\<rparr>) = statuses h'" for h' x by (simp add: statuses_def)
  moreover have "statuses (h\<lparr>aborted := x\<rparr>) = statuses h" for x by (simp add: statuses_def)
  ultimately show ?thesis by (simp add: cancelUpload_def Let_def split: option.splits)
qed

lemma status_after_cancelUpload:
  "status_of fid (cancelUpload fid h) = map_option (\<lambda>s. S_cancelled) (status_of fid h)"
  by (simp add: status_of_statuses statuses_cancelUpload map_of_set_status)

lemma map_set_twice: "map_set k v (map_set k v m) = map_set k v m"
proof (cases "map_has k m")
  case True
  then have "map_has k (map (\<lambda>e. if fst e = k then (k, v) else e) m)"
    by (auto simp: map_has_def image_iff)
  then show ?thesis using True by (simp add: map_set_def comp_def)
next
  case False
  then have "map (\<lambda>e. if fst e = k then (k, v) else e) m = m"
    by (intro map_idI) (auto simp: map_has_def image_iff)
  then show ?thesis using False by (simp add: map_set_def map_has_def)
qed

lemma map_get_map_set_same: "map_get k (map_set k v m) = Some v"
proof (cases "map_has k m")
  case True
  then have "map_of (map (\<lambda>e. if fst e = k then (k, v) else e) m) k = Some v"
    by (induction m) (auto simp: map_has_def)
  with True show ?thesis by (simp add: map_set_def map_get_def)
next
  case False
  then have "map_of m k = None" by (simp add: map_has_def map_of_eq_None_iff)
  with False show ?thesis by (simp add: map_set_def map_get_def map_add_def)
qed

lemma updateProgress_twice:
  assumes "\<And>p. u (u p) = u p"
  shows "updateProgress fid u (updateProgress fid u h) = updateProgress fid u h"
proof (cases "map_get fid (uploadProgress h)")
  case None
  then show ?thesis by (simp add: updateProgress_def)
next
  case (Some cur)
  then show ?thesis
    by (simp add: updateProgress_def map_get_map_set_same assms map_set_twice)
qed

lemma updateProgress_fields [simp]:
  "abortControllers (updateProgress fid u h) = abortControllers h"
  "aborted (updateProgress fid u h) = aborted h"
  "uploadQueue (updateProgress fid u h) = uploadQueue h"
  by (simp_all add: updateProgress_def split: option.splits)

lemma updateProgress_commute:
  "updateProgress fid u (h\<lparr>uploadQueue := q\<rparr>) = (updateProgress fid u h)\<lparr>uploadQueue := q\<rparr>"
  "updateProgress fid u (h\<lparr>aborted := a\<rparr>) = (updateProgress fid u h)\<lparr>aborted := a\<rparr>"
  by (simp_all add: updateProgress_def split: option.splits)

lemma cancelUpload_twice: "cancelUpload fid (cancelUpload fid h) = cancelUpload fid h"
proof -
  let ?u = "\<lambda>p. p\<lparr>up_status := S_cancelled, up_error := Some (Msg (Localized UploadCancelled))\<rparr>"
  have u: "updateProgress fid ?u (updateProgress fid ?u h') = updateProgress fid ?u h'" for h'
    by (rule updateProgress_twice) simp
  show ?thesis
    by (cases "map_get fid (abortControllers h)")
       (simp_all add: cancelUpload_def Let_def updateProgress_commute u)
qed

lemma uploadProgress_single:
  "uploadProgress (selectFiles [f] h) =
     [(generateFileId f,
       \<lparr>fileId = generateFileId f, fileName = file_name f, progress = 0, uploaded = 0,
        total = file_size f, speed = 0, up_status = initial_status [f] h,
        up_error = (case find (\<lambda>r. fst r = f) (results (validateFiles [f] (validationConfig h))) of
                      None \<Rightarrow> None
                    | Some r \<Rightarrow> Some (Joined (vr_errors (snd r))))\<rparr>)]"
  by (simp add: selectFiles_def Let_def map_set_def map_has_def initial_status_def)

lemma picture_alone_invalid: "\<not> isValid (validateFiles [picture] DEFAULT_VALIDATION_CONFIG)"
  by (simp add: validateFiles_def Let_def picture_invalid)

lemma picture_task_error:
  "statuses (selectFiles [picture] (useFileUpload None None)) = [(generateFileId picture, S_error)]"
  by (simp add: statuses_def uploadProgress_single initial_status_def picture_alone_invalid)

lemma cancelAll_keeps_error:
  "statuses (cancelAllUploads (selectFiles [picture] (useFileUpload None None))) =
     [(generateFileId picture, S_error)]"
proof -
  have "initial_status [picture] (useFileUpload None None) = S_error"
    by (simp add: initial_status_def picture_alone_invalid)
  then have "uploadProgress (cancelAllUploads (selectFiles [picture] (useFileUpload None None))) =
      uploadProgress (selectFiles [picture] (useFileUpload None None))"
    by (simp add: cancelAllUploads_def Let_def uploadProgress_single)
  then show ?thesis using picture_task_error by (simp add: statuses_def)
qed

text \<open>
  C3, on the code: cancelling a task twice leaves the state as after the first
  cancellation, but \<open>cancelUpload\<close> sets the status of any tracked task to
  \<open>cancelled\<close>, whatever it was. A task that \<open>selectFiles\<close> created in the terminal state
  \<open>error\<close> is \<open>cancelled\<close> after \<open>cancelUpload\<close>, while \<open>cancelAllUploads\<close>, which tests
  the status first, leaves it in \<open>error\<close>.
\<close>

theorem C3_cancel_overwrites_terminal_status:
  "cancelUpload fid (cancelUpload fid h) = cancelUpload fid h
   \<and> status_of fid (cancelUpload fid h) = map_option (\<lambda>s. S_cancelled) (status_of fid h)
   \<and> status_of (generateFileId picture) (selectFiles [picture] (useFileUpload None None)) = Some S_error
   \<and> status_of (generateFileId picture)
        (cancelUpload (generateFileId picture) (selectFiles [picture] (useFileUpload None None))) = Some S_cancelled
   \<and> status_of (generateFileId picture)
        (cancelAllUploads (selectFiles [picture] (useFileUpload None None))) = Some S_error"
  by (simp add: status_after_cancelUpload cancelUpload_twice)
     (simp add: status_of_statuses picture_task_error cancelAll_keeps_error)

text \<open>Cancelling the task that is in \<open>error\<close> changes its recorded status.\<close>

theorem C3_cancel_overwrites_terminal_status_witness:
  "status_of (generateFileId picture)
     (cancelUpload (generateFileId picture) (selectFiles [picture] (useFileUpload None None)))
   \<noteq> status_of (generateFileId picture) (selectFiles [picture] (useFileUpload None None))"
  using C3_cancel_overwrites_terminal_status[of "generateFileId picture"
      "selectFiles [picture] (useFileUpload None None)"]
  by simp

subsection \<open>Batches with a file that fails validation\<close>





end
